theory Spec2Isabelle
  imports Main
begin

section \<open>JavaScript values used by the descrambling component\<close>

text \<open>
  The component \<open>DescrambledImage\<close> of \<open>src/frontend/app.js\<close> works on JavaScript numbers
  and strings. A number is modelled as an integer or \<open>NaN\<close>: every number the component
  computes from its inputs is an integer (identifiers, character codes, pixel rows, the
  load token). JavaScript holds an integer exactly up to \<open>Number.MAX_SAFE_INTEGER\<close>,
  \<open>2^53 - 1\<close>; above it \<open>parseInt\<close> rounds what it reads, and from \<open>10^21\<close> on
  \<open>String\<close> prints an exponent. \<open>parseInt\<close> and \<open>String\<close> below are those of
  JavaScript on the exact range only, and every statement that depends on the value a
  number parses or prints to carries that range as a hypothesis (\<open>MAX_SAFE_INTEGER\<close>,
  \<open>exact\<close>, \<open>exact_value\<close>). Strings are lists of code units below 256 (the digest and
  the decimal identifiers are ASCII). A property value is \<open>undefined\<close>, \<open>null\<close>, a
  string or a number.
\<close>

datatype jsnum = NaN | Num int

datatype jsval = Undefined | Null | JStr string | JNum jsnum

text \<open>\<open>isNaN\<close>, \<open>!x\<close>, \<open><\<close> and \<open><=\<close> on numbers; a comparison with \<open>NaN\<close> is false.\<close>

fun isNaN :: "jsnum \<Rightarrow> bool" where
  "isNaN NaN = True"
| "isNaN (Num n) = False"

fun js_not :: "jsnum \<Rightarrow> bool" where
  "js_not NaN = True"
| "js_not (Num n) = (n = 0)"

fun js_lt :: "jsnum \<Rightarrow> jsnum \<Rightarrow> bool" where
  "js_lt (Num a) (Num b) = (a < b)"
| "js_lt _ _ = False"

fun js_le :: "jsnum \<Rightarrow> jsnum \<Rightarrow> bool" where
  "js_le (Num a) (Num b) = (a \<le> b)"
| "js_le _ _ = False"

text \<open>
  The remainder \<open>a % b\<close> takes the sign of the dividend and is \<open>NaN\<close> for a zero divisor;
  \<open>*\<close> and \<open>+\<close> propagate \<open>NaN\<close>.
\<close>

definition int_rem :: "int \<Rightarrow> int \<Rightarrow> int" where
  "int_rem a b = sgn a * (\<bar>a\<bar> mod \<bar>b\<bar>)"

fun js_rem :: "jsnum \<Rightarrow> jsnum \<Rightarrow> jsnum" where
  "js_rem (Num a) (Num b) = (if b = 0 then NaN else Num (int_rem a b))"
| "js_rem _ _ = NaN"

fun js_mul :: "jsnum \<Rightarrow> jsnum \<Rightarrow> jsnum" where
  "js_mul (Num a) (Num b) = Num (a * b)"
| "js_mul _ _ = NaN"

fun js_add :: "jsnum \<Rightarrow> jsnum \<Rightarrow> jsnum" where
  "js_add (Num a) (Num b) = Num (a + b)"
| "js_add _ _ = NaN"

subsection \<open>\<open>String(x)\<close>\<close>

definition digit_char :: "nat \<Rightarrow> char" where
  "digit_char d = ''0123456789'' ! d"

fun dec_nat :: "nat \<Rightarrow> string" where
  "dec_nat n = (if n < 10 then [digit_char n] else dec_nat (n div 10) @ [digit_char (n mod 10)])"

declare dec_nat.simps [simp del]

fun Number_toString :: "jsnum \<Rightarrow> string" where
  "Number_toString NaN = ''NaN''"
| "Number_toString (Num n) = (if n < 0 then CHR ''-'' # dec_nat (nat (- n)) else dec_nat (nat n))"

fun ToString :: "jsval \<Rightarrow> string" where
  "ToString Undefined = ''undefined''"
| "ToString Null = ''null''"
| "ToString (JStr s) = s"
| "ToString (JNum x) = Number_toString x"

subsection \<open>\<open>parseInt(x)\<close> without a radix\<close>

text \<open>
  \<open>parseInt\<close> converts its argument to a string, drops leading white space, reads an
  optional sign and an optional \<open>0x\<close> prefix, and takes the longest prefix of digits of
  the radix. With no digit the result is \<open>NaN\<close>.
\<close>

definition isWhiteSpace :: "char \<Rightarrow> bool" where
  "isWhiteSpace c = ((of_char c :: nat) \<in> {9, 10, 11, 12, 13, 32, 160})"

definition digitValue :: "char \<Rightarrow> nat" where
  "digitValue c =
     (let k = (of_char c :: nat)
      in if 48 \<le> k \<and> k \<le> 57 then k - 48
         else if 97 \<le> k \<and> k \<le> 122 then k - 87
         else if 65 \<le> k \<and> k \<le> 90 then k - 55
         else 36)"

definition isRadixDigit :: "nat \<Rightarrow> char \<Rightarrow> bool" where
  "isRadixDigit R c = (digitValue c < R)"

definition digitsValue :: "nat \<Rightarrow> string \<Rightarrow> nat" where
  "digitsValue R Z = foldl (\<lambda>a c. a * R + digitValue c) 0 Z"

definition parseInt_string :: "string \<Rightarrow> jsnum" where
  "parseInt_string inputString =
     (let S = dropWhile isWhiteSpace inputString;
          sign = (if S \<noteq> [] \<and> hd S = CHR ''-'' then - 1 else 1);
          S1 = (if S \<noteq> [] \<and> (hd S = CHR ''+'' \<or> hd S = CHR ''-'') then tl S else S);
          stripPrefix = (2 \<le> length S1 \<and> (take 2 S1 = ''0x'' \<or> take 2 S1 = ''0X''));
          R = (if stripPrefix then 16 else 10);
          S2 = (if stripPrefix then drop 2 S1 else S1);
          Z = takeWhile (isRadixDigit R) S2
      in if Z = [] then NaN else Num (sign * int (digitsValue R Z)))"

definition parseInt :: "jsval \<Rightarrow> jsnum" where
  "parseInt x = parseInt_string (ToString x)"

text \<open>
  The range on which the two conversions above are JavaScript's: a number is exact when
  it is \<open>NaN\<close> or an integer of magnitude at most \<open>Number.MAX_SAFE_INTEGER\<close>; a value
  is exact when it is not a number or is an exact one.
\<close>

definition MAX_SAFE_INTEGER :: int where
  "MAX_SAFE_INTEGER = 9007199254740991"

fun exact :: "jsnum \<Rightarrow> bool" where
  "exact NaN = True"
| "exact (Num n) = (\<bar>n\<bar> \<le> MAX_SAFE_INTEGER)"

fun exact_value :: "jsval \<Rightarrow> bool" where
  "exact_value (JNum x) = exact x"
| "exact_value v = True"

subsection \<open>\<open>s.charCodeAt(pos)\<close> and \<open>s.split(sep)\<close>\<close>

definition charCodeAt :: "string \<Rightarrow> int \<Rightarrow> jsnum" where
  "charCodeAt s pos =
     (if 0 \<le> pos \<and> pos < int (length s) then Num (int (of_char (s ! nat pos))) else NaN)"

fun split_string :: "char \<Rightarrow> string \<Rightarrow> string list" where
  "split_string sep [] = [[]]"
| "split_string sep (c # cs) =
     (if c = sep then [] # split_string sep cs
      else (case split_string sep cs of
              [] \<Rightarrow> [[c]]
            | w # ws \<Rightarrow> (c # w) # ws))"

section \<open>The segmentation rule: \<open>getSegmentationNum\<close>\<close>

text \<open>
  \<open>calculateMD5\<close> wraps the digest of the library \<open>CryptoJS\<close>, which is not part of the
  repository: the digest is a parameter of the model, a function from the hashed string
  to the digest's hexadecimal text.
\<close>

definition getSegmentationNum ::
  "(string \<Rightarrow> string) \<Rightarrow> jsval \<Rightarrow> jsval \<Rightarrow> jsval \<Rightarrow> jsnum" where
  "getSegmentationNum calculateMD5 epsId scrambleId pictureName =
     (let eid = parseInt epsId;
          sid0 = parseInt scrambleId;
          sid = (if js_not sid0 \<or> js_le sid0 (Num 0) then Num 220980 else sid0)
      in if isNaN eid then Num 0
         else if js_lt eid sid then Num 0
         else if js_lt eid (Num 268850) then Num 10
         else
           let hashData = calculateMD5 (Number_toString eid @ ToString pictureName);
               keyCode = charCodeAt hashData (int (length hashData) - 1)
           in if js_lt (Num 421926) eid
              then js_add (js_mul (js_rem keyCode (Num 8)) (Num 2)) (Num 2)
              else js_add (js_mul (js_rem keyCode (Num 10)) (Num 2)) (Num 2))"

text \<open>
  The specification's reading of the epoch: the supplied \<open>epochId\<close> when it parses to a
  positive number, the baseline \<open>220980\<close> otherwise.
\<close>

definition normalized_epoch :: "jsval \<Rightarrow> int" where
  "normalized_epoch epochId =
     (case parseInt epochId of
        NaN \<Rightarrow> 220980
      | Num e \<Rightarrow> if 0 < e then e else 220980)"

text \<open>
  The specification's reading of the digest's last character: its value as a hexadecimal
  digit, and the slice count \<open>(v mod m) * 2 + 2\<close> computed from it.
\<close>

definition hex_value :: "char \<Rightarrow> int" where
  "hex_value c = int (digitValue c)"

text \<open>A stub digest that answers every input with a digest ending in \<open>a\<close> (value 10).\<close>

definition stub_digest_a :: "string \<Rightarrow> string" where
  "stub_digest_a s = ''0123456789abcdef0123456789abcdea''"

section \<open>The canvas and the reconstruction: \<open>cutImage\<close>\<close>

text \<open>
  A decoded image has its natural size and one pixel per position. A canvas has a size, a
  bitmap whose positions are transparent (\<open>None\<close>) or hold a pixel, and the \<open>display\<close>
  property of its style. Assigning \<open>width\<close> or \<open>height\<close> to a canvas clears its bitmap.
\<close>

record 'p html_image =
  naturalWidth :: int
  naturalHeight :: int
  pixel :: "int \<Rightarrow> int \<Rightarrow> 'p"

record 'p html_canvas =
  width :: int
  height :: int
  bitmap :: "int \<Rightarrow> int \<Rightarrow> 'p option"
  style_display :: string

definition set_width :: "int \<Rightarrow> 'p html_canvas \<Rightarrow> 'p html_canvas" where
  "set_width v cv = cv\<lparr>width := v, bitmap := (\<lambda>x y. None)\<rparr>"

definition set_height :: "int \<Rightarrow> 'p html_canvas \<Rightarrow> 'p html_canvas" where
  "set_height v cv = cv\<lparr>height := v, bitmap := (\<lambda>x y. None)\<rparr>"

definition clearRect :: "int \<Rightarrow> int \<Rightarrow> int \<Rightarrow> int \<Rightarrow> 'p html_canvas \<Rightarrow> 'p html_canvas" where
  "clearRect x0 y0 w h cv =
     cv\<lparr>bitmap := (\<lambda>x y. if x0 \<le> x \<and> x < x0 + w \<and> y0 \<le> y \<and> y < y0 + h then None
                          else bitmap cv x y)\<rparr>"

text \<open>
  \<open>drawImage(image, sx, sy, sw, sh, dx, dy, dw, dh)\<close> as \<open>cutImage\<close> calls it, with the
  destination extent equal to the source extent: the destination position \<open>(x, y)\<close> of the
  rectangle receives the source pixel at the same offset, where both positions exist.
  An empty extent draws nothing.
\<close>

definition drawImage ::
  "'p html_image \<Rightarrow> int \<Rightarrow> int \<Rightarrow> int \<Rightarrow> int \<Rightarrow> int \<Rightarrow> int \<Rightarrow> int \<Rightarrow> int \<Rightarrow>
     'p html_canvas \<Rightarrow> 'p html_canvas" where
  "drawImage img sx sy sw sh dx dy dw dh cv =
     cv\<lparr>bitmap :=
        (\<lambda>x y. if dx \<le> x \<and> x < dx + dw \<and> dy \<le> y \<and> y < dy + dh
                  \<and> 0 \<le> x \<and> x < width cv \<and> 0 \<le> y \<and> y < height cv
                  \<and> x - dx < sw \<and> y - dy < sh
                  \<and> 0 \<le> sx + (x - dx) \<and> sx + (x - dx) < naturalWidth img
                  \<and> 0 \<le> sy + (y - dy) \<and> sy + (y - dy) < naturalHeight img
                then Some (pixel img (sx + (x - dx)) (sy + (y - dy)))
                else bitmap cv x y)\<rparr>"

text \<open>The first loop of \<open>cutImage\<close>: the source blocks \<open>[totalH, h]\<close>, in index order.\<close>

function build_blocks ::
  "int \<Rightarrow> int \<Rightarrow> int \<Rightarrow> int \<Rightarrow> int \<Rightarrow> (int \<times> int) list \<Rightarrow> (int \<times> int) list" where
  "build_blocks i sliceCount copyHeight rem totalH blocks =
     (if i < sliceCount then
        (let h = copyHeight * (i + 1);
             h' = (if i = sliceCount - 1 then h + rem else h)
         in build_blocks (i + 1) sliceCount copyHeight rem h' (blocks @ [(totalH, h')]))
      else blocks)"
  by pat_completeness auto
termination
  by (relation "measure (\<lambda>(i, sliceCount, copyHeight, rem, totalH, blocks). nat (sliceCount - i))") auto

declare build_blocks.simps [simp del]

definition source_blocks :: "int \<Rightarrow> int \<Rightarrow> (int \<times> int) list" where
  "source_blocks h sliceCount =
     (let rem = int_rem h sliceCount;
          copyHeight = h div sliceCount
      in build_blocks 0 sliceCount copyHeight rem 0 [])"

text \<open>
  The second loop: from the last block down to block 0, each block is drawn at \<open>destY\<close>,
  which then advances by the block's height. The index starts at the last position of
  \<open>blocks\<close> and stops below 0, so every read of \<open>blocks\<close> is in range.
\<close>

function draw_blocks ::
  "int \<Rightarrow> (int \<times> int) list \<Rightarrow> 'p html_image \<Rightarrow> int \<Rightarrow> int \<Rightarrow> 'p html_canvas \<Rightarrow> 'p html_canvas" where
  "draw_blocks i blocks img w destY cv =
     (if 0 \<le> i then
        (let start = fst (blocks ! nat i);
             endY = snd (blocks ! nat i);
             sliceH = endY - start
         in draw_blocks (i - 1) blocks img w (destY + sliceH)
              (drawImage img 0 start w sliceH 0 destY w sliceH cv))
      else cv)"
  by pat_completeness auto
termination
  by (relation "measure (\<lambda>(i, blocks, image, w, destY, cv). nat (i + 1))") auto

declare draw_blocks.simps [simp del]

definition block_height :: "int \<times> int \<Rightarrow> int" where
  "block_height b = snd b - fst b"

text \<open>
  For the statements about the loops: the block with index \<open>k\<close> in closed form, and the
  destination row at which block \<open>j\<close> is placed, the sum of the heights of the blocks
  with a higher index, which the second loop has drawn before it.
\<close>

definition block_at :: "int \<Rightarrow> int \<Rightarrow> int \<Rightarrow> int \<Rightarrow> int \<times> int" where
  "block_at n c r k = (c * k, if k = n - 1 then c * (k + 1) + r else c * (k + 1))"

definition dest_offset :: "(int \<times> int) list \<Rightarrow> int \<Rightarrow> int" where
  "dest_offset blocks j = (\<Sum>k\<in>{j + 1..int (length blocks) - 1}. block_height (blocks ! nat k))"

section \<open>The component instance and its load routine\<close>

text \<open>
  The properties the parent passes (\<open>index\<close> is not read by any method; \<open>page\<close> is a
  string, on which alone \<open>split\<close> exists), and the data of one instance. \<open>observer\<close> is
  \<open>None\<close> for \<open>null\<close> and otherwise tells whether the intersection observer still
  observes. \<open>canvas\<close> is \<open>this.$refs.canvas\<close>. Every \<open>Image\<close> that \<open>loadImage\<close>
  creates stays in \<open>pending\<close> until it settles: the token and the slice count its
  handlers captured, and its source.
\<close>

record props =
  src :: string
  comicId :: jsval
  scrambleId :: jsval
  page :: string

record load_attempt =
  myToken :: int
  slices :: jsnum
  img_src :: string

record 'p descrambled_image =
  loading :: bool
  needDescramble :: bool
  isVisible :: bool
  observer :: "bool option"
  loadToken :: int
  canvas :: "'p html_canvas option"
  pending :: "load_attempt list"

definition initial_canvas :: "'p html_canvas" where
  "initial_canvas = \<lparr>width = 300, height = 150, bitmap = (\<lambda>x y. None), style_display = ''none''\<rparr>"

definition data :: "'p descrambled_image" where
  "data = \<lparr>loading = True, needDescramble = False, isVisible = False, observer = None,
           loadToken = 0, canvas = Some initial_canvas, pending = []\<rparr>"

definition cutImage :: "'p html_image \<Rightarrow> jsnum \<Rightarrow> 'p descrambled_image \<Rightarrow> 'p descrambled_image" where
  "cutImage img sliceCount this =
     (case canvas this of
        None \<Rightarrow> this
      | Some canvas0 \<Rightarrow>
          let canvas1 = set_height (naturalHeight img) (set_width (naturalWidth img) canvas0)
          in if js_not sliceCount \<or> js_le sliceCount (Num 1) then this\<lparr>canvas := Some canvas1\<rparr>
             else (case sliceCount of
                NaN \<Rightarrow> this\<lparr>canvas := Some canvas1\<rparr>
              | Num n \<Rightarrow>
                  let canvas2 = clearRect 0 0 (width canvas1) (height canvas1) canvas1;
                      w = width canvas2;
                      h = height canvas2;
                      blocks = source_blocks h n;
                      canvas3 = draw_blocks (int (length blocks) - 1) blocks img w 0 canvas2
                  in this\<lparr>canvas := Some (canvas3\<lparr>style_display := ''block''\<rparr>)\<rparr>))"

text \<open>The test \<open>/\.gif$/i.test(s)\<close>: some suffix of \<open>s\<close> is \<open>.gif\<close> in either case.\<close>

fun gif_here :: "string \<Rightarrow> bool" where
  "gif_here [d, g, i, f] =
     (d = CHR ''.'' \<and> (g = CHR ''g'' \<or> g = CHR ''G'') \<and> (i = CHR ''i'' \<or> i = CHR ''I'')
      \<and> (f = CHR ''f'' \<or> f = CHR ''F''))"
| "gif_here _ = False"

fun gif_test :: "string \<Rightarrow> bool" where
  "gif_test [] = False"
| "gif_test (c # cs) = (gif_here (c # cs) \<or> gif_test cs)"

text \<open>
  \<open>loadImage\<close> has no \<open>await\<close>: it runs to its end when called. The handlers it assigns
  run later, when the image settles.
\<close>

definition pageName_of :: "string \<Rightarrow> jsval" where
  "pageName_of pg = (case split_string CHR ''.'' pg of [] \<Rightarrow> Undefined | x # xs \<Rightarrow> JStr x)"

definition sliceCount_of :: "(string \<Rightarrow> string) \<Rightarrow> props \<Rightarrow> jsnum" where
  "sliceCount_of calculateMD5 p =
     (let pageName = pageName_of (page p);
          epsId = parseInt (comicId p);
          scrambleId = parseInt (scrambleId p)
      in getSegmentationNum calculateMD5 (JNum epsId) (JNum scrambleId) pageName)"

definition loadImage :: "(string \<Rightarrow> string) \<Rightarrow> props \<Rightarrow> 'p descrambled_image \<Rightarrow> 'p descrambled_image" where
  "loadImage calculateMD5 p this =
     (let this1 = this\<lparr>loadToken := loadToken this + 1\<rparr>;
          this2 = this1\<lparr>loading := True, needDescramble := False\<rparr>;
          sliceCount = sliceCount_of calculateMD5 p
      in if js_le sliceCount (Num 1) \<or> gif_test (page p) then this2\<lparr>loading := False\<rparr>
         else this2\<lparr>needDescramble := True,
                    pending := pending this2 @
                      [\<lparr>myToken = loadToken this1, slices = sliceCount, img_src = src p\<rparr>]\<rparr>)"

definition onload :: "load_attempt \<Rightarrow> 'p html_image \<Rightarrow> 'p descrambled_image \<Rightarrow> 'p descrambled_image" where
  "onload a img this =
     (if myToken a \<noteq> loadToken this then this
      else (cutImage img (slices a) this)\<lparr>loading := False\<rparr>)"

definition onerror :: "load_attempt \<Rightarrow> 'p descrambled_image \<Rightarrow> 'p descrambled_image" where
  "onerror a this =
     (if myToken a \<noteq> loadToken this then this
      else this\<lparr>needDescramble := False, loading := False\<rparr>)"

text \<open>The hooks: \<open>mounted\<close> with the observer's callback, \<open>beforeUnmount\<close>, the watcher of \<open>src\<close>.\<close>

definition mounted :: "'p descrambled_image \<Rightarrow> 'p descrambled_image" where
  "mounted this = this\<lparr>observer := Some True\<rparr>"

definition observer_callback ::
  "(string \<Rightarrow> string) \<Rightarrow> bool \<Rightarrow> props \<Rightarrow> 'p descrambled_image \<Rightarrow> 'p descrambled_image" where
  "observer_callback calculateMD5 isIntersecting p this =
     (if isIntersecting
      then (loadImage calculateMD5 p (this\<lparr>isVisible := True\<rparr>))\<lparr>observer := Some False\<rparr>
      else this)"

definition beforeUnmount :: "'p descrambled_image \<Rightarrow> 'p descrambled_image" where
  "beforeUnmount this = (if observer this \<noteq> None then this\<lparr>observer := Some False\<rparr> else this)"

definition watch_src :: "(string \<Rightarrow> string) \<Rightarrow> props \<Rightarrow> 'p descrambled_image \<Rightarrow> 'p descrambled_image" where
  "watch_src calculateMD5 p this = (if isVisible this then loadImage calculateMD5 p this else this)"

text \<open>What the template shows: the \<open>img\<close> element with the undescrambled source.\<close>

definition img_shown :: "'p descrambled_image \<Rightarrow> bool" where
  "img_shown this = (\<not> needDescramble this \<and> \<not> loading this \<and> isVisible this)"

subsection \<open>Events of one instance\<close>

text \<open>
  The event loop delivers one event at a time: the hooks, the observer's callback while it
  observes, a change of \<open>src\<close>, and the settling of a pending image (the \<open>k\<close>-th one) with
  a decoded image or with an error. The unmount that follows the hook \<open>beforeUnmount\<close>
  removes the canvas, so \<open>this.$refs.canvas\<close> is empty from then on.
\<close>

datatype 'p outcome = Decoded "'p html_image" | Failed

datatype 'p event =
    Mounted
  | Intersect bool props
  | SrcChanged props
  | Settled nat "'p outcome"
  | BeforeUnmount

definition settle :: "load_attempt \<Rightarrow> 'p outcome \<Rightarrow> 'p descrambled_image \<Rightarrow> 'p descrambled_image" where
  "settle a out this = (case out of Decoded img \<Rightarrow> onload a img this | Failed \<Rightarrow> onerror a this)"

fun step :: "(string \<Rightarrow> string) \<Rightarrow> 'p descrambled_image \<Rightarrow> 'p event \<Rightarrow> 'p descrambled_image" where
  "step calculateMD5 this Mounted = mounted this"
| "step calculateMD5 this (Intersect b p) =
     (if observer this = Some True then observer_callback calculateMD5 b p this else this)"
| "step calculateMD5 this (SrcChanged p) = watch_src calculateMD5 p this"
| "step calculateMD5 this (Settled k out) =
     (if k < length (pending this)
      then settle (pending this ! k) out
             (this\<lparr>pending := take k (pending this) @ drop (Suc k) (pending this)\<rparr>)
      else this)"
| "step calculateMD5 this BeforeUnmount = (beforeUnmount this)\<lparr>canvas := None\<rparr>"

definition run :: "(string \<Rightarrow> string) \<Rightarrow> 'p event list \<Rightarrow> 'p descrambled_image" where
  "run calculateMD5 evs = foldl (step calculateMD5) data evs"

subsection \<open>Statement vocabulary and sample inputs\<close>

text \<open>
  The string that the specification says is hashed: the decimal identifier followed by
  the part of the page's file name before its first dot.
\<close>

definition digest_input :: "int \<Rightarrow> string \<Rightarrow> string" where
  "digest_input n pg = Number_toString (Num n) @ takeWhile (\<lambda>c. c \<noteq> CHR ''.'') pg"

text \<open>
  Three pages of the album \<open>500000\<close>, with no scramble identifier passed: a JPEG, a GIF
  with an upper-case extension, and a file name with two dots.
\<close>

definition page_jpg :: props where
  "page_jpg = \<lparr>src = ''/img/500000/00001.jpg'', comicId = JStr ''500000'', scrambleId = Undefined,
               page = ''00001.jpg''\<rparr>"

definition page_gif :: props where
  "page_gif = \<lparr>src = ''/img/500000/00002.GIF'', comicId = JStr ''500000'', scrambleId = Undefined,
               page = ''00002.GIF''\<rparr>"

definition page_dots :: props where
  "page_dots = \<lparr>src = ''/img/500000/foo.bar.jpg'', comicId = JStr ''500000'', scrambleId = Undefined,
               page = ''foo.bar.jpg''\<rparr>"

section \<open>Properties of \<open>parseInt\<close> and \<open>String\<close>\<close>

text \<open>
  \<open>getSegmentationNum\<close> applies \<open>parseInt\<close> to numbers that \<open>loadImage\<close> has parsed
  already: the number is printed in decimal and read again, which returns it unchanged.
\<close>

lemma digit_char_cases:
  assumes "d < 10"
  shows "d = 0 \<or> d = 1 \<or> d = 2 \<or> d = 3 \<or> d = 4 \<or> d = 5 \<or> d = 6 \<or> d = 7 \<or> d = 8 \<or> d = (9::nat)"
  using assms by arith

lemma digitValue_digit_char: "d < 10 \<Longrightarrow> digitValue (digit_char d) = d"
  using digit_char_cases [of d] by (auto simp: digitValue_def digit_char_def)

lemma digit_char_plain:
  "d < 10 \<Longrightarrow> \<not> isWhiteSpace (digit_char d) \<and> digit_char d \<noteq> CHR ''+'' \<and> digit_char d \<noteq> CHR ''-''"
  using digit_char_cases [of d] by (auto simp: isWhiteSpace_def digit_char_def)

lemma dec_nat_nonempty: "dec_nat n \<noteq> []"
  by (subst dec_nat.simps) simp

lemma dec_nat_digits: "c \<in> set (dec_nat n) \<Longrightarrow> digitValue c < 10"
proof (induction n arbitrary: c rule: dec_nat.induct)
  case (1 n)
  show ?case
  proof (cases "n < 10")
    case True
    with "1.prems" show ?thesis
      by (subst (asm) dec_nat.simps) (simp add: digitValue_digit_char)
  next
    case False
    with "1.prems" have "c \<in> set (dec_nat (n div 10)) \<or> c = digit_char (n mod 10)"
      by (subst (asm) dec_nat.simps) auto
    then show ?thesis using "1.IH" False by (auto simp: digitValue_digit_char)
  qed
qed

lemma dec_nat_hd: "\<exists>d<10. hd (dec_nat n) = digit_char d"
proof (induction n rule: dec_nat.induct)
  case (1 n)
  show ?case
  proof (cases "n < 10")
    case True
    then show ?thesis by (subst dec_nat.simps) auto
  next
    case False
    then show ?thesis using "1.IH" by (subst dec_nat.simps) (simp add: dec_nat_nonempty)
  qed
qed

lemma digitsValue_snoc: "digitsValue R (Z @ [c]) = digitsValue R Z * R + digitValue c"
  by (simp add: digitsValue_def)

lemma digitsValue_dec_nat: "digitsValue 10 (dec_nat n) = n"
proof (induction n rule: dec_nat.induct)
  case (1 n)
  show ?case
  proof (cases "n < 10")
    case True
    then show ?thesis by (subst dec_nat.simps) (simp add: digitsValue_def digitValue_digit_char)
  next
    case False
    then show ?thesis using "1.IH"
      by (subst dec_nat.simps) (simp add: digitsValue_snoc digitValue_digit_char)
  qed
qed

lemma dec_nat_no_prefix: "take 2 (dec_nat n) \<noteq> ''0x'' \<and> take 2 (dec_nat n) \<noteq> ''0X''"
proof -
  have "\<And>c. c \<in> set (take 2 (dec_nat n)) \<Longrightarrow> digitValue c < 10"
    using dec_nat_digits by (meson in_set_takeD)
  moreover have "\<not> digitValue CHR ''x'' < 10" "\<not> digitValue CHR ''X'' < 10"
    by (simp_all add: digitValue_def)
  ultimately show ?thesis by fastforce
qed

lemma parseInt_string_dec_nat: "parseInt_string (dec_nat n) = Num (int n)"
proof -
  obtain c cs where d: "dec_nat n = c # cs" using dec_nat_nonempty by (cases "dec_nat n") auto
  obtain k where k: "k < 10" "c = digit_char k" using dec_nat_hd [of n] d by auto
  have ws: "dropWhile isWhiteSpace (dec_nat n) = dec_nat n"
    using d k digit_char_plain by simp
  have sg: "hd (dec_nat n) \<noteq> CHR ''+''" "hd (dec_nat n) \<noteq> CHR ''-''"
    using d k digit_char_plain by simp_all
  have tw: "takeWhile (isRadixDigit 10) (dec_nat n) = dec_nat n"
    using dec_nat_digits by (simp add: isRadixDigit_def)
  show ?thesis
    unfolding parseInt_string_def Let_def ws
    by (simp add: sg tw dec_nat_no_prefix dec_nat_nonempty digitsValue_dec_nat)
qed

lemma parseInt_string_minus_dec_nat:
  "parseInt_string (CHR ''-'' # dec_nat n) = Num (- int n)"
proof -
  have ws: "dropWhile isWhiteSpace (CHR ''-'' # dec_nat n) = CHR ''-'' # dec_nat n"
    by (simp add: isWhiteSpace_def)
  have tw: "takeWhile (isRadixDigit 10) (dec_nat n) = dec_nat n"
    using dec_nat_digits by (simp add: isRadixDigit_def)
  show ?thesis
    unfolding parseInt_string_def Let_def ws
    by (simp add: tw dec_nat_no_prefix dec_nat_nonempty digitsValue_dec_nat)
qed

lemma parseInt_Number: "parseInt (JNum x) = x"
proof (cases x)
  case NaN
  then show ?thesis
    by (simp add: parseInt_def parseInt_string_def isWhiteSpace_def isRadixDigit_def digitValue_def)
next
  case (Num n)
  then show ?thesis
    by (simp add: parseInt_def parseInt_string_dec_nat parseInt_string_minus_dec_nat)
qed

lemmas parse_eval = parseInt_def parseInt_string_def isWhiteSpace_def isRadixDigit_def
  digitValue_def digitsValue_def

lemma parse_200000: "parseInt (JStr ''200000'') = Num 200000"
  by (simp add: parse_eval)

lemma parse_250000: "parseInt (JStr ''250000'') = Num 250000"
  by (simp add: parse_eval)

lemma parse_300000: "parseInt (JStr ''300000'') = Num 300000"
  by (simp add: parse_eval)

lemma parse_500000: "parseInt (JStr ''500000'') = Num 500000"
  by (simp add: parse_eval)

lemma parse_abc: "parseInt (JStr ''abc'') = NaN"
  by (simp add: parse_eval)

section \<open>Properties of the segmentation rule\<close>

lemma sid_normalized:
  "(if js_not (parseInt epochId) \<or> js_le (parseInt epochId) (Num 0) then Num 220980
    else parseInt epochId) = Num (normalized_epoch epochId)"
  by (cases "parseInt epochId") (auto simp: normalized_epoch_def)

lemma normalized_epoch_default: "normalized_epoch Undefined = 220980"
  by (simp add: normalized_epoch_def parse_eval)

lemma normalized_epoch_examples:
  "normalized_epoch (JStr ''abc'') = 220980"
  "normalized_epoch (JStr ''0'') = 220980"
  "normalized_epoch (JStr ''-5'') = 220980"
  "normalized_epoch (JStr ''225000'') = 225000"
  by (simp_all add: normalized_epoch_def parse_eval)

lemma getSegmentationNum_NaN:
  "parseInt epsId = NaN \<Longrightarrow> getSegmentationNum digest epsId epochId p = Num 0"
  by (simp add: getSegmentationNum_def Let_def)

lemma getSegmentationNum_Num:
  assumes "parseInt epsId = Num n"
  shows "getSegmentationNum digest epsId epochId p =
     (if n < normalized_epoch epochId then Num 0
      else if n < 268850 then Num 10
      else if 421926 < n
        then js_add (js_mul (js_rem (charCodeAt (digest (Number_toString (Num n) @ ToString p))
               (int (length (digest (Number_toString (Num n) @ ToString p))) - 1)) (Num 8)) (Num 2)) (Num 2)
        else js_add (js_mul (js_rem (charCodeAt (digest (Number_toString (Num n) @ ToString p))
               (int (length (digest (Number_toString (Num n) @ ToString p))) - 1)) (Num 10)) (Num 2)) (Num 2))"
  unfolding getSegmentationNum_def Let_def sid_normalized assms by simp

lemma charCodeAt_last:
  "d \<noteq> [] \<Longrightarrow> charCodeAt d (int (length d) - 1) = Num (int (of_char (last d)))"
  by (cases d rule: rev_cases) (simp_all add: charCodeAt_def nth_append)

lemma int_rem_nonneg: "0 < m \<Longrightarrow> int_rem (int k) m = int k mod m"
  by (simp add: int_rem_def sgn_if)

lemma key_formula:
  "0 < m \<Longrightarrow> d \<noteq> [] \<Longrightarrow>
   js_add (js_mul (js_rem (charCodeAt d (int (length d) - 1)) (Num m)) (Num 2)) (Num 2) =
   Num ((int (of_char (last d)) mod m) * 2 + 2)"
  by (simp add: charCodeAt_last int_rem_nonneg)

lemma key_nonzero: "0 < m \<Longrightarrow> (int k mod m) * 2 + 2 \<noteq> 0"
proof -
  assume "0 < m"
  then have "0 \<le> int k mod m" by simp
  then show ?thesis by linarith
qed

lemma stub_digest_a_last: "stub_digest_a s \<noteq> [] \<and> last (stub_digest_a s) = CHR ''a''"
  by (simp add: stub_digest_a_def)

text \<open>
  C1, as the code has it. For an identifier that parses to \<open>n\<close>, at most
  \<open>MAX_SAFE_INTEGER\<close>, at or above the normalized epoch and above \<open>421926\<close>, a page
  name that is an exact value, and a digest that is not empty, \<open>getSegmentationNum\<close>
  returns \<open>(c mod 8) * 2 + 2\<close> where \<open>c\<close> is the character code (\<open>charCodeAt\<close>) of the
  last character of the digest of the decimal string of \<open>n\<close> followed by the page name:
  the code of the character, not its value as a hexadecimal digit. For the identifier
  \<open>500000\<close>, the default epoch and a digest ending in \<open>a\<close> the result is 4. (An epoch
  outside the exact range needs no hypothesis of its own: \<open>parseInt\<close> here reads it
  either above \<open>MAX_SAFE_INTEGER\<close>, hence above \<open>n\<close>, which the hypothesis on the
  normalized epoch excludes, or below zero, where JavaScript also reads a negative number
  and both take \<open>220980\<close>.)
\<close>

theorem getSegmentationNum_third_epoch:
  "(parseInt numericId = Num n \<and> n \<le> MAX_SAFE_INTEGER \<and> exact_value p \<and>
    normalized_epoch epochId \<le> n \<and> 421926 < n \<and>
    digest (Number_toString (Num n) @ ToString p) \<noteq> [] \<longrightarrow>
      getSegmentationNum digest numericId epochId p =
      Num ((int (of_char (last (digest (Number_toString (Num n) @ ToString p)))) mod 8) * 2 + 2)) \<and>
   (exact_value p \<and> digest (Number_toString (Num 500000) @ ToString p) \<noteq> [] \<and>
    last (digest (Number_toString (Num 500000) @ ToString p)) = CHR ''a'' \<longrightarrow>
      getSegmentationNum digest (JStr ''500000'') Undefined p = Num 4)"
proof (intro conjI impI)
  assume "parseInt numericId = Num n \<and> n \<le> MAX_SAFE_INTEGER \<and> exact_value p \<and>
    normalized_epoch epochId \<le> n \<and> 421926 < n \<and>
    digest (Number_toString (Num n) @ ToString p) \<noteq> []"
  then show "getSegmentationNum digest numericId epochId p =
      Num ((int (of_char (last (digest (Number_toString (Num n) @ ToString p)))) mod 8) * 2 + 2)"
    by (simp add: getSegmentationNum_Num key_formula del: Number_toString.simps)
next
  assume "exact_value p \<and> digest (Number_toString (Num 500000) @ ToString p) \<noteq> [] \<and>
    last (digest (Number_toString (Num 500000) @ ToString p)) = CHR ''a''"
  then show "getSegmentationNum digest (JStr ''500000'') Undefined p = Num 4"
    by (simp add: getSegmentationNum_Num [OF parse_500000] normalized_epoch_default key_formula
        del: Number_toString.simps)
qed

text \<open>
  The identifier \<open>600000\<close> with a supplied epoch \<open>225000\<close>, and the identifier
  \<open>500000\<close> with the default epoch, both with a digest ending in \<open>a\<close> (code 97,
  hexadecimal value 10): the result is \<open>(97 mod 8) * 2 + 2 = 4\<close>.
\<close>

theorem getSegmentationNum_third_epoch_witness:
  "parseInt (JNum (Num 600000)) = Num 600000 \<and> 600000 \<le> MAX_SAFE_INTEGER \<and>
   exact_value (JStr ''00001'') \<and> normalized_epoch (JStr ''225000'') \<le> 600000 \<and>
   stub_digest_a (Number_toString (Num 600000) @ ToString (JStr ''00001'')) \<noteq> [] \<and>
   getSegmentationNum stub_digest_a (JNum (Num 600000)) (JStr ''225000'') (JStr ''00001'') = Num 4 \<and>
   stub_digest_a (Number_toString (Num 500000) @ ToString (JStr ''00001'')) \<noteq> [] \<and>
   last (stub_digest_a (Number_toString (Num 500000) @ ToString (JStr ''00001''))) = CHR ''a'' \<and>
   getSegmentationNum stub_digest_a (JStr ''500000'') Undefined (JStr ''00001'') = Num 4"
  using getSegmentationNum_third_epoch [where numericId = "JNum (Num 600000)" and n = 600000
        and epochId = "JStr ''225000''" and digest = stub_digest_a and p = "JStr ''00001''"]
  by (simp add: parseInt_Number normalized_epoch_examples stub_digest_a_last MAX_SAFE_INTEGER_def
      del: Number_toString.simps)

text \<open>
  C1 as the specification states it fails there: the last character of the digest has
  the hexadecimal value 10, the claimed slice count is \<open>(10 mod 8) * 2 + 2 = 6\<close>, and
  \<open>getSegmentationNum\<close> returns 4.
\<close>

theorem getSegmentationNum_hex_value_counterexample:
  "hex_value (last (stub_digest_a (Number_toString (Num 500000) @ ToString (JStr ''00001'')))) = 10 \<and>
   getSegmentationNum stub_digest_a (JStr ''500000'') Undefined (JStr ''00001'') = Num 4 \<and>
   getSegmentationNum stub_digest_a (JStr ''500000'') Undefined (JStr ''00001'') \<noteq>
     Num ((hex_value (last (stub_digest_a (Number_toString (Num 500000) @ ToString (JStr ''00001'')))) mod 8) * 2 + 2)"
  by (simp add: getSegmentationNum_Num [OF parse_500000] normalized_epoch_default key_formula
      stub_digest_a_last hex_value_def digitValue_def del: Number_toString.simps)

text \<open>
  C5. For an identifier that parses to \<open>n\<close>, at most \<open>MAX_SAFE_INTEGER\<close> and at or above
  the normalized epoch, a page name that is an exact value, and a digest that is not
  empty: between \<open>268850\<close> and \<open>421926\<close> the result is an even number from 2
  to 20, above \<open>421926\<close> an even number from 2 to 16, and from \<open>268850\<close> on the result
  is the same for every other way of writing the identifier \<open>n\<close> and every other epoch
  at or below \<open>n\<close>: it depends on \<open>n\<close>, the page name and the digest function only.
\<close>

theorem getSegmentationNum_even_range:
  assumes "parseInt numericId = Num n" "normalized_epoch epochId \<le> n"
    and "digest (Number_toString (Num n) @ ToString p) \<noteq> []"
    and "n \<le> MAX_SAFE_INTEGER" "exact_value p"
  shows "(268850 \<le> n \<and> n \<le> 421926 \<longrightarrow>
           (\<exists>k\<in>{1..10}. getSegmentationNum digest numericId epochId p = Num (2 * k))) \<and>
         (421926 < n \<longrightarrow>
           (\<exists>k\<in>{1..8}. getSegmentationNum digest numericId epochId p = Num (2 * k))) \<and>
         (\<forall>numericId' epochId'.
            268850 \<le> n \<and> parseInt numericId' = Num n \<and> normalized_epoch epochId' \<le> n \<longrightarrow>
            getSegmentationNum digest numericId' epochId' p =
            getSegmentationNum digest numericId epochId p)"
proof (intro conjI impI allI)
  let ?c = "int (of_char (last (digest (Number_toString (Num n) @ ToString p))))"
  assume r: "268850 \<le> n \<and> n \<le> 421926"
  have "0 \<le> ?c mod 10" "?c mod 10 < 10" by simp_all
  then have "?c mod 10 + 1 \<in> {1..10}" by simp
  moreover have "getSegmentationNum digest numericId epochId p = Num (2 * (?c mod 10 + 1))"
    using assms r by (simp add: getSegmentationNum_Num key_formula del: Number_toString.simps)
  ultimately show "\<exists>k\<in>{1..10}. getSegmentationNum digest numericId epochId p = Num (2 * k)"
    by blast
next
  let ?c = "int (of_char (last (digest (Number_toString (Num n) @ ToString p))))"
  assume r: "421926 < n"
  have "0 \<le> ?c mod 8" "?c mod 8 < 8" by simp_all
  then have "?c mod 8 + 1 \<in> {1..8}" by simp
  moreover have "getSegmentationNum digest numericId epochId p = Num (2 * (?c mod 8 + 1))"
    using assms r by (simp add: getSegmentationNum_Num key_formula del: Number_toString.simps)
  ultimately show "\<exists>k\<in>{1..8}. getSegmentationNum digest numericId epochId p = Num (2 * k)"
    by blast
next
  fix numericId' epochId'
  assume "268850 \<le> n \<and> parseInt numericId' = Num n \<and> normalized_epoch epochId' \<le> n"
  then show "getSegmentationNum digest numericId' epochId' p =
      getSegmentationNum digest numericId epochId p"
    using assms by (simp add: getSegmentationNum_Num del: Number_toString.simps)
qed

theorem getSegmentationNum_even_range_witness:
  "300000 \<le> MAX_SAFE_INTEGER \<and> 500000 \<le> MAX_SAFE_INTEGER \<and> exact_value (JStr ''00001'') \<and>
   parseInt (JStr ''300000'') = Num 300000 \<and> normalized_epoch Undefined \<le> 300000 \<and>
   stub_digest_a (Number_toString (Num 300000) @ ToString (JStr ''00001'')) \<noteq> [] \<and>
   (\<exists>k\<in>{1..10}. getSegmentationNum stub_digest_a (JStr ''300000'') Undefined (JStr ''00001'') = Num (2 * k)) \<and>
   parseInt (JNum (Num 300000)) = Num 300000 \<and> normalized_epoch (JStr ''225000'') \<le> 300000 \<and>
   getSegmentationNum stub_digest_a (JNum (Num 300000)) (JStr ''225000'') (JStr ''00001'') =
   getSegmentationNum stub_digest_a (JStr ''300000'') Undefined (JStr ''00001'') \<and>
   parseInt (JStr ''500000'') = Num 500000 \<and> normalized_epoch Undefined \<le> 500000 \<and>
   stub_digest_a (Number_toString (Num 500000) @ ToString (JStr ''00001'')) \<noteq> [] \<and>
   (\<exists>k\<in>{1..8}. getSegmentationNum stub_digest_a (JStr ''500000'') Undefined (JStr ''00001'') = Num (2 * k))"
proof -
  have p3: "parseInt (JStr ''300000'') = Num 300000" by (rule parse_300000)
  have e3: "normalized_epoch Undefined \<le> 300000" by (simp add: normalized_epoch_default)
  have d3: "stub_digest_a (Number_toString (Num 300000) @ ToString (JStr ''00001'')) \<noteq> []"
    by (simp add: stub_digest_a_def)
  have p5: "parseInt (JStr ''500000'') = Num 500000" by (rule parse_500000)
  have e5: "normalized_epoch Undefined \<le> 500000" by (simp add: normalized_epoch_default)
  have d5: "stub_digest_a (Number_toString (Num 500000) @ ToString (JStr ''00001'')) \<noteq> []"
    by (simp add: stub_digest_a_def)
  have pn: "parseInt (JNum (Num 300000)) = Num 300000" by (rule parseInt_Number)
  have en: "normalized_epoch (JStr ''225000'') \<le> 300000" by (simp add: normalized_epoch_examples)
  have m3: "300000 \<le> MAX_SAFE_INTEGER" by (simp add: MAX_SAFE_INTEGER_def)
  have m5: "500000 \<le> MAX_SAFE_INTEGER" by (simp add: MAX_SAFE_INTEGER_def)
  have x: "exact_value (JStr ''00001'')" by simp
  note t3 = getSegmentationNum_even_range [where numericId = "JStr ''300000''" and n = 300000
        and epochId = Undefined and digest = stub_digest_a and p = "JStr ''00001''", OF p3 e3 d3 m3 x]
  note t5 = getSegmentationNum_even_range [where numericId = "JStr ''500000''" and n = 500000
        and epochId = Undefined and digest = stub_digest_a and p = "JStr ''00001''", OF p5 e5 d5 m5 x]
  have a: "\<exists>k\<in>{1..10}. getSegmentationNum stub_digest_a (JStr ''300000'') Undefined (JStr ''00001'') = Num (2 * k)"
    using t3 [THEN conjunct1] by simp
  have b: "getSegmentationNum stub_digest_a (JNum (Num 300000)) (JStr ''225000'') (JStr ''00001'') =
      getSegmentationNum stub_digest_a (JStr ''300000'') Undefined (JStr ''00001'')"
    using t3 [THEN conjunct2, THEN conjunct2, rule_format, of "JNum (Num 300000)" "JStr ''225000''"] pn en
    by simp
  have c: "\<exists>k\<in>{1..8}. getSegmentationNum stub_digest_a (JStr ''500000'') Undefined (JStr ''00001'') = Num (2 * k)"
    using t5 [THEN conjunct2, THEN conjunct1] by simp
  from m3 m5 x p3 e3 d3 a pn en b p5 e5 d5 c show ?thesis by blast
qed

text \<open>
  C6. \<open>getSegmentationNum\<close> returns 0 when the identifier does not parse, and, when it
  parses to \<open>n\<close> of magnitude at most \<open>MAX_SAFE_INTEGER\<close> and the epoch is an exact
  value, returns 0 if \<open>n\<close> is below the normalized epoch and something other than 0 if
  it is not: the threshold of the code is the normalized epoch, the supplied epoch when
  it parses to a positive number and \<open>220980\<close> otherwise.
\<close>

theorem getSegmentationNum_zero:
  "(parseInt numericId = NaN \<longrightarrow> getSegmentationNum digest numericId epochId p = Num 0) \<and>
   (\<forall>n. parseInt numericId = Num n \<and> \<bar>n\<bar> \<le> MAX_SAFE_INTEGER \<and> exact_value epochId \<longrightarrow>
      (n < normalized_epoch epochId \<longrightarrow> getSegmentationNum digest numericId epochId p = Num 0) \<and>
      (normalized_epoch epochId \<le> n \<longrightarrow> getSegmentationNum digest numericId epochId p \<noteq> Num 0))"
proof -
  have unparsed: "getSegmentationNum digest numericId epochId p = Num 0"
    if "parseInt numericId = NaN"
    using that by (rule getSegmentationNum_NaN)
  have below: "getSegmentationNum digest numericId epochId p = Num 0"
    if "parseInt numericId = Num n" "n < normalized_epoch epochId" for n
    using that by (simp add: getSegmentationNum_Num)
  have above: "getSegmentationNum digest numericId epochId p \<noteq> Num 0"
    if p: "parseInt numericId = Num n" and e: "normalized_epoch epochId \<le> n" for n
  proof (cases "digest (Number_toString (Num n) @ ToString p) = []")
    case True
    with p e show ?thesis
      by (simp add: getSegmentationNum_Num charCodeAt_def del: Number_toString.simps)
  next
    case False
    with p e show ?thesis
      by (simp add: getSegmentationNum_Num key_formula key_nonzero del: Number_toString.simps)
  qed
  show ?thesis using unparsed below above by blast
qed

text \<open>
  An identifier that does not parse; \<open>200000\<close> below the default epoch, with the epoch
  absent, not numeric, zero and negative; \<open>200000\<close> below a supplied epoch \<open>225000\<close>;
  \<open>500000\<close> above the default epoch.
\<close>

theorem getSegmentationNum_zero_witness:
  "\<bar>200000\<bar> \<le> MAX_SAFE_INTEGER \<and> \<bar>500000\<bar> \<le> MAX_SAFE_INTEGER \<and>
   exact_value Undefined \<and> exact_value (JStr ''abc'') \<and> exact_value (JStr ''0'') \<and>
   exact_value (JStr ''-5'') \<and> exact_value (JStr ''225000'') \<and>
   parseInt (JStr ''abc'') = NaN \<and>
   getSegmentationNum stub_digest_a (JStr ''abc'') Undefined (JStr ''00001'') = Num 0 \<and>
   parseInt (JStr ''200000'') = Num 200000 \<and>
   normalized_epoch Undefined = 220980 \<and>
   getSegmentationNum stub_digest_a (JStr ''200000'') Undefined (JStr ''00001'') = Num 0 \<and>
   normalized_epoch (JStr ''abc'') = 220980 \<and>
   getSegmentationNum stub_digest_a (JStr ''200000'') (JStr ''abc'') (JStr ''00001'') = Num 0 \<and>
   normalized_epoch (JStr ''0'') = 220980 \<and>
   getSegmentationNum stub_digest_a (JStr ''200000'') (JStr ''0'') (JStr ''00001'') = Num 0 \<and>
   normalized_epoch (JStr ''-5'') = 220980 \<and>
   getSegmentationNum stub_digest_a (JStr ''200000'') (JStr ''-5'') (JStr ''00001'') = Num 0 \<and>
   normalized_epoch (JStr ''225000'') = 225000 \<and>
   getSegmentationNum stub_digest_a (JStr ''200000'') (JStr ''225000'') (JStr ''00001'') = Num 0 \<and>
   parseInt (JStr ''500000'') = Num 500000 \<and>
   getSegmentationNum stub_digest_a (JStr ''500000'') Undefined (JStr ''00001'') \<noteq> Num 0"
  using getSegmentationNum_zero [of "JStr ''abc''" stub_digest_a Undefined "JStr ''00001''"]
    getSegmentationNum_zero [of "JStr ''200000''" stub_digest_a Undefined "JStr ''00001''"]
    getSegmentationNum_zero [of "JStr ''200000''" stub_digest_a "JStr ''abc''" "JStr ''00001''"]
    getSegmentationNum_zero [of "JStr ''200000''" stub_digest_a "JStr ''0''" "JStr ''00001''"]
    getSegmentationNum_zero [of "JStr ''200000''" stub_digest_a "JStr ''-5''" "JStr ''00001''"]
    getSegmentationNum_zero [of "JStr ''200000''" stub_digest_a "JStr ''225000''" "JStr ''00001''"]
    getSegmentationNum_zero [of "JStr ''500000''" stub_digest_a Undefined "JStr ''00001''"]
  by (simp add: parse_abc parse_200000 parse_500000 normalized_epoch_default
      normalized_epoch_examples MAX_SAFE_INTEGER_def)

text \<open>
  C7. For an identifier that parses to \<open>n\<close> with normalized epoch \<open>\<le> n < 268850\<close>,
  \<open>getSegmentationNum\<close> returns 10 whatever the digest function is; so it does for
  \<open>250000\<close> with the default epoch.
\<close>

theorem getSegmentationNum_ten:
  "(\<forall>n. parseInt numericId = Num n \<and> normalized_epoch epochId \<le> n \<and> n < 268850 \<longrightarrow>
      getSegmentationNum digest numericId epochId p = Num 10) \<and>
   getSegmentationNum digest (JStr ''250000'') Undefined p = Num 10"
  by (simp add: getSegmentationNum_Num parse_250000 normalized_epoch_default)

theorem getSegmentationNum_ten_witness:
  "parseInt (JNum (Num 230000)) = Num 230000 \<and> normalized_epoch (JStr ''225000'') \<le> 230000 \<and>
   getSegmentationNum stub_digest_a (JNum (Num 230000)) (JStr ''225000'') (JStr ''00001'') = Num 10 \<and>
   getSegmentationNum (\<lambda>s. []) (JStr ''250000'') Undefined (JStr ''00001'') = Num 10"
  using getSegmentationNum_ten [of "JNum (Num 230000)" "JStr ''225000''" stub_digest_a "JStr ''00001''"]
    getSegmentationNum_ten [of "JStr ''250000''" Undefined "\<lambda>s. []" "JStr ''00001''"]
  by (simp add: parseInt_Number normalized_epoch_examples)

section \<open>Properties of the reconstruction\<close>

lemma build_blocks_closed:
  "i < n \<Longrightarrow> t = c * i \<Longrightarrow>
   build_blocks i n c r t acc = acc @ map (block_at n c r) [i..n - 1]"
proof (induction i n c r t acc rule: build_blocks.induct)
  case (1 i n c r t acc)
  show ?case
  proof (cases "i + 1 < n")
    case True
    then have "build_blocks (i + 1) n c r (c * (i + 1)) (acc @ [(t, c * (i + 1))]) =
        (acc @ [(t, c * (i + 1))]) @ map (block_at n c r) [i + 1..n - 1]"
      using "1.IH" [of "c * (i + 1)" "c * (i + 1)"] "1.prems" by simp
    moreover have "[i..n - 1] = i # [i + 1..n - 1]" using True by (simp add: upto_rec1)
    ultimately show ?thesis
      using True "1.prems" by (subst build_blocks.simps) (simp add: block_at_def)
  next
    case False
    with "1.prems" have e: "i = n - 1" by simp
    then have "[i..n - 1] = [i]" by simp
    then show ?thesis
      using e "1.prems"
      by (subst build_blocks.simps, subst build_blocks.simps) (simp add: block_at_def)
  qed
qed

lemma block_height_pair [simp]: "block_height (a, b) = b - a"
  by (simp add: block_height_def)

lemma build_blocks_sum:
  "i < n \<Longrightarrow>
   sum_list (map block_height (build_blocks i n c r t acc)) =
   sum_list (map block_height acc) + (c * n + r - t)"
proof (induction i n c r t acc rule: build_blocks.induct)
  case (1 i n c r t acc)
  show ?case
  proof (cases "i + 1 < n")
    case True
    then show ?thesis
      using "1.IH" [of "c * (i + 1)" "c * (i + 1)"] "1.prems"
      by (subst build_blocks.simps) (simp add: Let_def)
  next
    case False
    with "1.prems" have e: "i = n - 1" by simp
    then show ?thesis
      by (subst build_blocks.simps, subst build_blocks.simps) (simp add: algebra_simps)
  qed
qed

lemma int_rem_mod: "0 \<le> a \<Longrightarrow> 0 < b \<Longrightarrow> int_rem a b = a mod b"
  by (simp add: int_rem_def sgn_if)

lemma source_blocks_closed:
  assumes "0 < n" "0 \<le> H"
  shows "source_blocks H n = map (block_at n (H div n) (H mod n)) [0..n - 1]"
  using assms by (simp add: source_blocks_def int_rem_mod build_blocks_closed)

lemma source_blocks_length: "0 < n \<Longrightarrow> 0 \<le> H \<Longrightarrow> length (source_blocks H n) = nat n"
  by (simp add: source_blocks_closed)

lemma source_blocks_nth:
  assumes "0 < n" "0 \<le> H" "0 \<le> k" "k < n"
  shows "source_blocks H n ! nat k = (H div n * k, if k = n - 1 then H else H div n * (k + 1))"
proof -
  have "source_blocks H n ! nat k = block_at n (H div n) (H mod n) k"
    using assms by (simp add: source_blocks_closed)
  moreover have "H div n * n + H mod n = H" by simp
  ultimately show ?thesis by (auto simp: block_at_def algebra_simps)
qed

lemma source_blocks_sum:
  "0 < n \<Longrightarrow> 0 \<le> H \<Longrightarrow> sum_list (map block_height (source_blocks H n)) = H"
  by (simp add: source_blocks_def int_rem_mod build_blocks_sum)

lemma div_times_le: "0 < n \<Longrightarrow> 0 \<le> H \<Longrightarrow> 0 \<le> k \<Longrightarrow> k \<le> n \<Longrightarrow> H div n * k \<le> (H::int)"
proof -
  assume a: "0 < n" "0 \<le> H" "0 \<le> k" "k \<le> n"
  then have "0 \<le> H div n" by (simp add: pos_imp_zdiv_nonneg_iff)
  then have "H div n * k \<le> H div n * n" using a by (simp add: mult_left_mono)
  moreover have "H div n * n + H mod n = H" by simp
  moreover have "0 \<le> H mod n" using a by simp
  ultimately show ?thesis by linarith
qed

lemma source_blocks_bounds:
  assumes "0 < n" "0 \<le> H" "0 \<le> i" "i < n"
  shows "0 \<le> fst (source_blocks H n ! nat i) \<and> 0 \<le> block_height (source_blocks H n ! nat i) \<and>
       snd (source_blocks H n ! nat i) \<le> H"
proof -
  have c: "0 \<le> H div n" using assms by (simp add: pos_imp_zdiv_nonneg_iff)
  have lo: "H div n * i \<le> H" using assms by (simp add: div_times_le)
  have hi: "H div n * (i + 1) \<le> H" using assms by (simp add: div_times_le)
  have st: "H div n * i \<le> H div n * (i + 1)" using c by (simp add: mult_left_mono)
  show ?thesis
  proof (cases "i = n - 1")
    case True
    have "source_blocks H n ! nat i = (H div n * i, H)"
      using assms True by (simp add: source_blocks_nth)
    then show ?thesis using c assms lo by simp
  next
    case False
    have "source_blocks H n ! nat i = (H div n * i, H div n * (i + 1))"
      using assms False by (simp add: source_blocks_nth)
    then show ?thesis using c assms hi st by simp
  qed
qed

text \<open>
  C3. For every slice count \<open>n \<ge> 2\<close> and every height \<open>H \<ge> 0\<close>, the blocks that
  \<open>cutImage\<close> builds are exactly \<open>n\<close>; block \<open>i < n - 1\<close> is
  \<open>[base * i, base * (i + 1))\<close> and the last block is \<open>[base * (n - 1), H)\<close> with
  \<open>base = H div n\<close>; every block starts at or after row 0, has a height that is not
  negative and ends at or before row \<open>H\<close>; the first block starts at row 0, each block
  starts where the one before it ends, the last block ends at row \<open>H\<close>, and the heights
  sum to \<open>H\<close>. Nothing is assumed about \<open>H\<close> against \<open>n\<close>.
\<close>

theorem source_blocks_partition:
  assumes "2 \<le> n" "0 \<le> H"
  shows "length (source_blocks H n) = nat n \<and>
    (\<forall>i. 0 \<le> i \<and> i < n - 1 \<longrightarrow>
       source_blocks H n ! nat i = (H div n * i, H div n * (i + 1))) \<and>
    source_blocks H n ! nat (n - 1) = (H div n * (n - 1), H) \<and>
    (\<forall>i. 0 \<le> i \<and> i < n \<longrightarrow>
       0 \<le> fst (source_blocks H n ! nat i) \<and> 0 \<le> block_height (source_blocks H n ! nat i) \<and>
       snd (source_blocks H n ! nat i) \<le> H) \<and>
    fst (source_blocks H n ! 0) = 0 \<and>
    (\<forall>i. 0 \<le> i \<and> i < n - 1 \<longrightarrow>
       fst (source_blocks H n ! nat (i + 1)) = snd (source_blocks H n ! nat i)) \<and>
    snd (source_blocks H n ! nat (n - 1)) = H \<and>
    sum_list (map block_height (source_blocks H n)) = H"
proof -
  have n: "0 < n" using assms by simp
  have len: "length (source_blocks H n) = nat n"
    using n assms by (simp add: source_blocks_length)
  have inner: "\<forall>i. 0 \<le> i \<and> i < n - 1 \<longrightarrow>
       source_blocks H n ! nat i = (H div n * i, H div n * (i + 1))"
    using n assms by (simp add: source_blocks_nth)
  have final: "source_blocks H n ! nat (n - 1) = (H div n * (n - 1), H)"
    using n assms source_blocks_nth [of n H "n - 1"] by simp
  have bounds: "\<forall>i. 0 \<le> i \<and> i < n \<longrightarrow>
       0 \<le> fst (source_blocks H n ! nat i) \<and> 0 \<le> block_height (source_blocks H n ! nat i) \<and>
       snd (source_blocks H n ! nat i) \<le> H"
    using n assms source_blocks_bounds [of n H] by simp
  have first: "fst (source_blocks H n ! 0) = 0"
    using n assms source_blocks_nth [of n H 0] by simp
  have contiguous: "\<forall>i. 0 \<le> i \<and> i < n - 1 \<longrightarrow>
       fst (source_blocks H n ! nat (i + 1)) = snd (source_blocks H n ! nat i)"
    using n assms by (simp add: source_blocks_nth)
  have total: "sum_list (map block_height (source_blocks H n)) = H"
    using n assms by (simp add: source_blocks_sum)
  from len inner final bounds first contiguous total show ?thesis by simp
qed

text \<open>Height 7 with 10 slices (nine empty blocks and one of height 7), and height 300 with 3.\<close>

theorem source_blocks_partition_witness:
  "(2::int) \<le> 10 \<and> (0::int) \<le> 7 \<and>
   length (source_blocks 7 10) = 10 \<and>
   source_blocks 7 10 ! 3 = (0, 0) \<and>
   source_blocks 7 10 ! 9 = (0, 7) \<and>
   sum_list (map block_height (source_blocks 7 10)) = 7 \<and>
   (2::int) \<le> 3 \<and> (0::int) \<le> 300 \<and>
   source_blocks 300 3 ! 0 = (0, 100) \<and>
   source_blocks 300 3 ! 1 = (100, 200) \<and>
   source_blocks 300 3 ! 2 = (200, 300) \<and>
   sum_list (map block_height (source_blocks 300 3)) = 300"
proof -
  have a: "(2::int) \<le> 10" "(0::int) \<le> 7" by simp_all
  have b: "(2::int) \<le> 3" "(0::int) \<le> 300" by simp_all
  note ta = source_blocks_partition [OF a]
  note tb = source_blocks_partition [OF b]
  have a0: "length (source_blocks 7 10) = 10" using ta by simp
  have a1: "source_blocks 7 10 ! 3 = (0, 0)"
    using ta [THEN conjunct2, THEN conjunct1, rule_format, of 3] by simp
  have a2: "source_blocks 7 10 ! 9 = (0, 7)"
    using ta [THEN conjunct2, THEN conjunct2, THEN conjunct1] by simp
  have a3: "sum_list (map block_height (source_blocks 7 10)) = 7" using ta by simp
  have b0: "source_blocks 300 3 ! 0 = (0, 100)"
    using tb [THEN conjunct2, THEN conjunct1, rule_format, of 0] by simp
  have b1: "source_blocks 300 3 ! 1 = (100, 200)"
    using tb [THEN conjunct2, THEN conjunct1, rule_format, of 1] by simp
  have b2: "source_blocks 300 3 ! 2 = (200, 300)"
    using tb [THEN conjunct2, THEN conjunct2, THEN conjunct1] by (simp add: numeral_2_eq_2)
  have b3: "sum_list (map block_height (source_blocks 300 3)) = 300" using tb by simp
  from a b a0 a1 a2 a3 b0 b1 b2 b3 show ?thesis by simp
qed

lemma drawImage_fields [simp]:
  "width (drawImage img sx sy sw sh dx dy dw dh cv) = width cv"
  "height (drawImage img sx sy sw sh dx dy dw dh cv) = height cv"
  "style_display (drawImage img sx sy sw sh dx dy dw dh cv) = style_display cv"
  by (simp_all add: drawImage_def)

lemma draw_blocks_fields:
  "width (draw_blocks i bs img w destY cv) = width cv \<and>
   height (draw_blocks i bs img w destY cv) = height cv \<and>
   style_display (draw_blocks i bs img w destY cv) = style_display cv"
proof (induction i bs img w destY cv rule: draw_blocks.induct)
  case (1 i bs img w destY cv)
  show ?case
  proof (cases "0 \<le> i")
    case True
    then show ?thesis using "1.IH" by (subst (1 2 3) draw_blocks.simps) (simp add: Let_def)
  next
    case False
    then show ?thesis by (subst (1 2 3) draw_blocks.simps) simp
  qed
qed

lemma draw_blocks_above:
  "(\<forall>k. 0 \<le> k \<and> k \<le> i \<longrightarrow> 0 \<le> block_height (bs ! nat k)) \<Longrightarrow> y < destY \<Longrightarrow>
   bitmap (draw_blocks i bs img w destY cv) x y = bitmap cv x y"
proof (induction i bs img w destY cv rule: draw_blocks.induct)
  case (1 i bs img w destY cv)
  show ?case
  proof (cases "0 \<le> i")
    case True
    let ?h = "snd (bs ! nat i) - fst (bs ! nat i)"
    have h: "0 \<le> ?h" using "1.prems"(1) True by (simp add: block_height_def)
    have "bitmap (draw_blocks (i - 1) bs img w (destY + ?h)
            (drawImage img 0 (fst (bs ! nat i)) w ?h 0 destY w ?h cv)) x y =
          bitmap (drawImage img 0 (fst (bs ! nat i)) w ?h 0 destY w ?h cv) x y"
      using "1.IH" [OF True refl refl refl] "1.prems" h by simp
    also have "\<dots> = bitmap cv x y" using "1.prems"(2) by (simp add: drawImage_def)
    finally show ?thesis using True by (subst draw_blocks.simps) (simp add: Let_def)
  next
    case False
    then show ?thesis by (subst draw_blocks.simps) simp
  qed
qed

lemma sum_int_interval_last:
  fixes f :: "int \<Rightarrow> int"
  assumes "j < i"
  shows "sum f {j + 1..i} = f i + sum f {j + 1..i - 1}"
proof -
  have "{j + 1..i} = insert i {j + 1..i - 1}" using assms by auto
  then show ?thesis by simp
qed

lemma draw_blocks_pixel:
  assumes "0 \<le> j" "j \<le> i"
    and "\<forall>k. 0 \<le> k \<and> k \<le> i \<longrightarrow> 0 \<le> block_height (bs ! nat k)"
    and "D = destY + (\<Sum>k\<in>{j + 1..i}. block_height (bs ! nat k))"
    and "D \<le> y" "y < D + block_height (bs ! nat j)"
    and "0 \<le> x" "x < w" "x < width cv" "x < naturalWidth img"
    and "0 \<le> y" "y < height cv"
    and "0 \<le> fst (bs ! nat j)" "snd (bs ! nat j) \<le> naturalHeight img"
  shows "bitmap (draw_blocks i bs img w destY cv) x y =
         Some (pixel img x (fst (bs ! nat j) + (y - D)))"
  using assms
proof (induction i bs img w destY cv rule: draw_blocks.induct)
  case (1 i bs img w destY cv)
  let ?h = "snd (bs ! nat i) - fst (bs ! nat i)"
  let ?cv = "drawImage img 0 (fst (bs ! nat i)) w ?h 0 destY w ?h cv"
  have i0: "0 \<le> i" using "1.prems" by simp
  have h: "0 \<le> ?h" using "1.prems"(3) i0 by (simp add: block_height_def)
  have unfold: "draw_blocks i bs img w destY cv = draw_blocks (i - 1) bs img w (destY + ?h) ?cv"
    using i0 by (subst draw_blocks.simps) (simp add: Let_def)
  show ?case
  proof (cases "j = i")
    case True
    then have D: "D = destY" using "1.prems"(4) by simp
    have later: "\<forall>k. 0 \<le> k \<and> k \<le> i - 1 \<longrightarrow> 0 \<le> block_height (bs ! nat k)"
      using "1.prems"(3) by simp
    have "bitmap (draw_blocks (i - 1) bs img w (destY + ?h) ?cv) x y = bitmap ?cv x y"
      using draw_blocks_above [OF later, of y "destY + ?h"] "1.prems"(6) True D
      by (simp add: block_height_def)
    also have "\<dots> = Some (pixel img x (fst (bs ! nat i) + (y - destY)))"
      using "1.prems" True D by (simp add: drawImage_def block_height_def)
    finally show ?thesis using unfold True D by simp
  next
    case False
    then have ji: "j \<le> i - 1" using "1.prems"(2) by simp
    have D: "D = (destY + ?h) + (\<Sum>k\<in>{j + 1..i - 1}. block_height (bs ! nat k))"
      using "1.prems"(4) ji sum_int_interval_last [of j i "\<lambda>k. block_height (bs ! nat k)"]
      by (simp add: block_height_def)
    have later: "\<forall>k. 0 \<le> k \<and> k \<le> i - 1 \<longrightarrow> 0 \<le> block_height (bs ! nat k)"
      using "1.prems"(3) by simp
    have "bitmap (draw_blocks (i - 1) bs img w (destY + ?h) ?cv) x y =
          Some (pixel img x (fst (bs ! nat j) + (y - D)))"
      using "1.IH" [OF i0 refl refl refl "1.prems"(1) ji later D] "1.prems" by simp
    then show ?thesis using unfold by simp
  qed
qed

lemma contiguous_sum:
  fixes b :: "int \<Rightarrow> int \<times> int"
  assumes "j \<le> m" and "\<forall>k. j < k \<and> k \<le> m \<longrightarrow> fst (b k) = snd (b (k - 1))"
  shows "(\<Sum>k\<in>{j + 1..m}. block_height (b k)) = snd (b m) - snd (b j)"
  using assms
proof (induction m rule: int_ge_induct)
  case base
  then show ?case by simp
next
  case (step m)
  have "(\<Sum>k\<in>{j + 1..m + 1}. block_height (b k)) =
        block_height (b (m + 1)) + (\<Sum>k\<in>{j + 1..m}. block_height (b k))"
    using step.hyps sum_int_interval_last [of j "m + 1" "\<lambda>k. block_height (b k)"] by simp
  moreover have "(\<Sum>k\<in>{j + 1..m}. block_height (b k)) = snd (b m) - snd (b j)"
    using step by simp
  moreover have "fst (b (m + 1)) = snd (b m)" using step.prems step.hyps by simp
  ultimately show ?case by (simp add: block_height_def)
qed

lemma source_blocks_offset:
  assumes "2 \<le> n" "0 \<le> H" "0 \<le> j" "j < n"
  shows "dest_offset (source_blocks H n) j = H - snd (source_blocks H n ! nat j)"
proof -
  have n: "0 < n" using assms by simp
  let ?b = "\<lambda>k. source_blocks H n ! nat k"
  have "\<forall>k. j < k \<and> k \<le> n - 1 \<longrightarrow> fst (?b k) = snd (?b (k - 1))"
    using n assms by (simp add: source_blocks_nth)
  then have "(\<Sum>k\<in>{j + 1..n - 1}. block_height (?b k)) = snd (?b (n - 1)) - snd (?b j)"
    using contiguous_sum [of j "n - 1" ?b] assms by simp
  moreover have "snd (?b (n - 1)) = H" using n assms by (simp add: source_blocks_nth)
  moreover have "int (length (source_blocks H n)) - 1 = n - 1"
    using n assms by (simp add: source_blocks_length)
  ultimately show ?thesis by (simp add: dest_offset_def)
qed

lemma cutImage_canvas:
  assumes "canvas this = Some cv" "2 \<le> n" "0 \<le> naturalHeight img"
  shows "canvas (cutImage img (Num n) this) =
     Some ((draw_blocks (n - 1) (source_blocks (naturalHeight img) n) img (naturalWidth img) 0
        (clearRect 0 0 (naturalWidth img) (naturalHeight img)
          (set_height (naturalHeight img) (set_width (naturalWidth img) cv))))
        \<lparr>style_display := ''block''\<rparr>)"
proof -
  have "int (length (source_blocks (naturalHeight img) n)) - 1 = n - 1"
    using assms by (simp add: source_blocks_length)
  then show ?thesis
    using assms by (simp add: cutImage_def Let_def set_height_def set_width_def clearRect_def)
qed

lemma cutImage_pixel:
  assumes "canvas this = Some cv" "2 \<le> n" "0 \<le> naturalHeight img"
    and "canvas (cutImage img (Num n) this) = Some cv'"
    and "0 \<le> j" "j < n" "0 \<le> t" "t < block_height (source_blocks (naturalHeight img) n ! nat j)"
    and "0 \<le> x" "x < naturalWidth img"
  shows "bitmap cv' x (dest_offset (source_blocks (naturalHeight img) n) j + t) =
         Some (pixel img x (fst (source_blocks (naturalHeight img) n ! nat j) + t))"
proof -
  let ?H = "naturalHeight img" and ?W = "naturalWidth img"
  let ?bs = "source_blocks ?H n"
  let ?cv2 = "clearRect 0 0 ?W ?H (set_height ?H (set_width ?W cv))"
  let ?D = "dest_offset ?bs j"
  have n: "0 < n" using assms(2) by simp
  have bounds: "\<forall>i. 0 \<le> i \<and> i < n \<longrightarrow> 0 \<le> fst (?bs ! nat i) \<and> 0 \<le> block_height (?bs ! nat i) \<and>
       snd (?bs ! nat i) \<le> ?H"
    using n assms(3) source_blocks_bounds [of n ?H] by simp
  have bj: "0 \<le> fst (?bs ! nat j)" "snd (?bs ! nat j) \<le> ?H"
    using bounds assms(5,6) by simp_all
  have D: "?D = ?H - snd (?bs ! nat j)" using assms by (simp add: source_blocks_offset)
  have Dsum: "?D = 0 + (\<Sum>k\<in>{j + 1..n - 1}. block_height (?bs ! nat k))"
    using assms by (simp add: dest_offset_def source_blocks_length)
  have nonneg: "\<forall>k. 0 \<le> k \<and> k \<le> n - 1 \<longrightarrow> 0 \<le> block_height (?bs ! nat k)"
    using bounds by simp
  have dims: "width ?cv2 = ?W" "height ?cv2 = ?H"
    by (simp_all add: clearRect_def set_height_def set_width_def)
  have y0: "0 \<le> ?D + t" using D bj assms(7) by simp
  have y1: "?D + t < ?H" using D bj assms(7,8) by (simp add: block_height_def)
  have "bitmap (draw_blocks (n - 1) ?bs img ?W 0 ?cv2) x (?D + t) =
        Some (pixel img x (fst (?bs ! nat j) + ((?D + t) - ?D)))"
    using assms(5,6,7,8,9,10) nonneg Dsum bj dims y0 y1
    by (intro draw_blocks_pixel) simp_all
  moreover have "cv' = (draw_blocks (n - 1) ?bs img ?W 0 ?cv2)\<lparr>style_display := ''block''\<rparr>"
    using cutImage_canvas [OF assms(1,2,3)] assms(4) by simp
  ultimately show ?thesis by simp
qed

lemma cutImage_dims:
  assumes "canvas this = Some cv" "2 \<le> n" "0 \<le> naturalHeight img"
  shows "\<exists>cv'. canvas (cutImage img (Num n) this) = Some cv' \<and>
     width cv' = naturalWidth img \<and> height cv' = naturalHeight img \<and>
     style_display cv' = ''block''"
  using cutImage_canvas [OF assms]
  by (simp add: draw_blocks_fields clearRect_def set_height_def set_width_def)

lemma source_blocks_300_3: "source_blocks 300 3 = [(0, 100), (100, 200), (200, 300)]"
  by (simp add: source_blocks_def build_blocks.simps int_rem_def)

lemma blocks_300_3:
  "dest_offset [(0, 100), (100, 200), (200, 300)] 0 = 200"
  "dest_offset [(0, 100), (100, 200), (200, 300)] 1 = 100"
  "dest_offset [(0, 100), (100, 200), (200, 300)] 2 = 0"
  using source_blocks_offset [of 3 300 0] source_blocks_offset [of 3 300 1]
    source_blocks_offset [of 3 300 2]
  by (simp_all add: source_blocks_300_3)

text \<open>
  C4. With a canvas present, a slice count \<open>n \<ge> 2\<close> and an image of height \<open>H \<ge> 0\<close>,
  \<open>cutImage\<close> leaves a canvas of the width and height of the image in which block \<open>j\<close>
  of the source lies at the destination offset \<open>dest_offset\<close>, the sum of the heights
  of the blocks with a higher index (those drawn before it), row \<open>t\<close> of the block at row
  \<open>t\<close> after the offset, over the full width. For \<open>H = 300\<close> and \<open>n = 3\<close>: the
  destination rows 0 to 99 hold the source rows 200 to 299, the rows 100 to 199 hold the
  source rows 100 to 199, the rows 200 to 299 hold the source rows 0 to 99.
\<close>

theorem cutImage_reverse_order:
  assumes "canvas this = Some cv" "2 \<le> n" "0 \<le> naturalHeight img"
  shows "\<exists>cv'. canvas (cutImage img (Num n) this) = Some cv' \<and>
     width cv' = naturalWidth img \<and> height cv' = naturalHeight img \<and>
     (\<forall>j t x. 0 \<le> j \<and> j < n \<and> 0 \<le> t
         \<and> t < block_height (source_blocks (naturalHeight img) n ! nat j)
         \<and> 0 \<le> x \<and> x < naturalWidth img \<longrightarrow>
        bitmap cv' x (dest_offset (source_blocks (naturalHeight img) n) j + t) =
        Some (pixel img x (fst (source_blocks (naturalHeight img) n ! nat j) + t))) \<and>
     (n = 3 \<and> naturalHeight img = 300 \<longrightarrow>
        (\<forall>x y. 0 \<le> x \<and> x < naturalWidth img \<longrightarrow>
           (0 \<le> y \<and> y < 100 \<longrightarrow> bitmap cv' x y = Some (pixel img x (200 + y))) \<and>
           (100 \<le> y \<and> y < 200 \<longrightarrow> bitmap cv' x y = Some (pixel img x y)) \<and>
           (200 \<le> y \<and> y < 300 \<longrightarrow> bitmap cv' x y = Some (pixel img x (y - 200)))))"
proof -
  obtain cv' where cv': "canvas (cutImage img (Num n) this) = Some cv'"
      "width cv' = naturalWidth img" "height cv' = naturalHeight img"
    using cutImage_dims [OF assms] by blast
  let ?bs = "source_blocks (naturalHeight img) n"
  have px: "bitmap cv' x (dest_offset ?bs j + t) = Some (pixel img x (fst (?bs ! nat j) + t))"
    if "0 \<le> j" "j < n" "0 \<le> t" "t < block_height (?bs ! nat j)" "0 \<le> x" "x < naturalWidth img"
    for j t x
    using cutImage_pixel [OF assms cv'(1) that] .
  have scen: "(0 \<le> y \<and> y < 100 \<longrightarrow> bitmap cv' x y = Some (pixel img x (200 + y))) \<and>
           (100 \<le> y \<and> y < 200 \<longrightarrow> bitmap cv' x y = Some (pixel img x y)) \<and>
           (200 \<le> y \<and> y < 300 \<longrightarrow> bitmap cv' x y = Some (pixel img x (y - 200)))"
    if n3: "n = 3 \<and> naturalHeight img = 300" and x: "0 \<le> x \<and> x < naturalWidth img" for x y
  proof (intro conjI impI)
    assume y: "0 \<le> y \<and> y < 100"
    show "bitmap cv' x y = Some (pixel img x (200 + y))"
      using px [of 2 y x] n3 x y by (simp add: blocks_300_3 source_blocks_300_3)
  next
    assume y: "100 \<le> y \<and> y < 200"
    show "bitmap cv' x y = Some (pixel img x y)"
      using px [of 1 "y - 100" x] n3 x y by (simp add: blocks_300_3 source_blocks_300_3)
  next
    assume y: "200 \<le> y \<and> y < 300"
    show "bitmap cv' x y = Some (pixel img x (y - 200))"
      using px [of 0 "y - 200" x] n3 x y by (simp add: blocks_300_3 source_blocks_300_3)
  qed
  show ?thesis
    using cv' px scen by (intro exI [of _ cv']) blast
qed

text \<open>An image of width 2 and height 300 whose pixel at \<open>(x, y)\<close> is the pair \<open>(x, y)\<close>.\<close>

theorem cutImage_reverse_order_witness:
  "canvas (data :: (int \<times> int) descrambled_image) = Some initial_canvas \<and> (2::int) \<le> 3 \<and>
   (\<exists>cv'. canvas (cutImage \<lparr>naturalWidth = 2, naturalHeight = 300, pixel = (\<lambda>x y. (x, y))\<rparr> (Num 3) data)
       = Some cv' \<and>
     width cv' = 2 \<and> height cv' = 300 \<and>
     bitmap cv' 0 0 = Some (0, 200) \<and> bitmap cv' 1 99 = Some (1, 299) \<and>
     bitmap cv' 0 100 = Some (0, 100) \<and> bitmap cv' 1 199 = Some (1, 199) \<and>
     bitmap cv' 0 200 = Some (0, 0) \<and> bitmap cv' 1 299 = Some (1, 99))"
proof -
  let ?img = "\<lparr>naturalWidth = 2, naturalHeight = 300, pixel = (\<lambda>x y. (x, y))\<rparr> :: (int \<times> int) html_image"
  have c: "canvas (data :: (int \<times> int) descrambled_image) = Some initial_canvas"
    by (simp add: data_def)
  have n: "(2::int) \<le> 3" by simp
  have h: "0 \<le> naturalHeight ?img" by simp
  obtain cv' where cv': "canvas (cutImage ?img (Num 3) data) = Some cv'"
     "width cv' = naturalWidth ?img" "height cv' = naturalHeight ?img"
     "3 = (3::int) \<and> naturalHeight ?img = 300 \<longrightarrow>
        (\<forall>x y. 0 \<le> x \<and> x < naturalWidth ?img \<longrightarrow>
           (0 \<le> y \<and> y < 100 \<longrightarrow> bitmap cv' x y = Some (pixel ?img x (200 + y))) \<and>
           (100 \<le> y \<and> y < 200 \<longrightarrow> bitmap cv' x y = Some (pixel ?img x y)) \<and>
           (200 \<le> y \<and> y < 300 \<longrightarrow> bitmap cv' x y = Some (pixel ?img x (y - 200))))"
    using cutImage_reverse_order [OF c n h] by blast
  have s: "\<And>x y. 0 \<le> x \<and> x < 2 \<Longrightarrow>
           (0 \<le> y \<and> y < 100 \<longrightarrow> bitmap cv' x y = Some (x, 200 + y)) \<and>
           (100 \<le> y \<and> y < 200 \<longrightarrow> bitmap cv' x y = Some (x, y)) \<and>
           (200 \<le> y \<and> y < 300 \<longrightarrow> bitmap cv' x y = Some (x, y - 200))"
    using cv'(4) by simp
  have "bitmap cv' 0 0 = Some (0, 200)" using s [of 0 0] by simp
  moreover have "bitmap cv' 1 99 = Some (1, 299)" using s [of 1 99] by simp
  moreover have "bitmap cv' 0 100 = Some (0, 100)" using s [of 0 100] by simp
  moreover have "bitmap cv' 1 199 = Some (1, 199)" using s [of 1 199] by simp
  moreover have "bitmap cv' 0 200 = Some (0, 0)" using s [of 0 200] by simp
  moreover have "bitmap cv' 1 299 = Some (1, 99)" using s [of 1 299] by simp
  ultimately show ?thesis using c n cv'(1,2,3) by simp
qed

section \<open>Properties of the load routine\<close>

lemma split_string_hd:
  "\<exists>ws. split_string sep s = takeWhile (\<lambda>c. c \<noteq> sep) s # ws"
proof (induction s)
  case Nil
  then show ?case by simp
next
  case (Cons c cs)
  then obtain ws where "split_string sep cs = takeWhile (\<lambda>c. c \<noteq> sep) cs # ws" by blast
  then show ?case by simp
qed

lemma pageName_of_takeWhile: "pageName_of pg = JStr (takeWhile (\<lambda>c. c \<noteq> CHR ''.'') pg)"
proof -
  obtain ws where "split_string CHR ''.'' pg = takeWhile (\<lambda>c. c \<noteq> CHR ''.'') pg # ws"
    using split_string_hd by blast
  then show ?thesis by (simp add: pageName_of_def)
qed

lemma normalized_epoch_Number: "normalized_epoch (JNum (parseInt x)) = normalized_epoch x"
  by (simp add: normalized_epoch_def parseInt_Number)

lemma sliceCount_of_eq:
  "sliceCount_of digest p =
   getSegmentationNum digest (JNum (parseInt (comicId p))) (JNum (parseInt (scrambleId p)))
     (JStr (takeWhile (\<lambda>c. c \<noteq> CHR ''.'') (page p)))"
  by (simp add: sliceCount_of_def Let_def pageName_of_takeWhile)

lemma gif_test_suffix:
  assumes "g = CHR ''g'' \<or> g = CHR ''G''" "i = CHR ''i'' \<or> i = CHR ''I''"
    "f = CHR ''f'' \<or> f = CHR ''F''"
  shows "gif_test (pre @ [CHR ''.'', g, i, f])"
  using assms by (induction pre) auto

lemma loadImage_loadToken [simp]: "loadToken (loadImage digest p this) = loadToken this + 1"
  by (simp add: loadImage_def Let_def)

lemma loadImage_pending:
  "pending (loadImage digest p this) =
     (if js_le (sliceCount_of digest p) (Num 1) \<or> gif_test (page p) then pending this
      else pending this @
        [\<lparr>myToken = loadToken this + 1, slices = sliceCount_of digest p, img_src = src p\<rparr>])"
  by (simp add: loadImage_def Let_def)

lemma cutImage_keeps [simp]:
  "loadToken (cutImage img n this) = loadToken this"
  "pending (cutImage img n this) = pending this"
  "isVisible (cutImage img n this) = isVisible this"
  "needDescramble (cutImage img n this) = needDescramble this"
  by (simp_all add: cutImage_def Let_def split: option.splits jsnum.splits)

lemma settle_keeps [simp]:
  "loadToken (settle a out this) = loadToken this"
  "pending (settle a out this) = pending this"
  by (simp_all add: settle_def onload_def onerror_def split: outcome.splits)

lemma settle_stale: "myToken a \<noteq> loadToken this \<Longrightarrow> settle a out this = this"
  by (simp add: settle_def onload_def onerror_def split: outcome.splits)

lemma step_tokens:
  assumes "\<forall>a\<in>set (pending this). myToken a \<le> loadToken this"
  shows "\<forall>a\<in>set (pending (step digest this e)). myToken a \<le> loadToken (step digest this e)"
proof (cases e)
  case Mounted
  then show ?thesis using assms by (simp add: mounted_def)
next
  case (Intersect b p)
  then show ?thesis using assms
    by (auto simp: observer_callback_def loadImage_pending split: if_splits)
next
  case (SrcChanged p)
  then show ?thesis using assms
    by (auto simp: watch_src_def loadImage_pending split: if_splits)
next
  case (Settled k out)
  then show ?thesis using assms
    by (auto dest: in_set_takeD in_set_dropD)
next
  case BeforeUnmount
  then show ?thesis using assms by (simp add: beforeUnmount_def)
qed

lemma run_snoc: "run digest (evs @ [e]) = step digest (run digest evs) e"
  by (simp add: run_def)

lemma run_tokens:
  "\<forall>a\<in>set (pending (run digest evs)). myToken a \<le> loadToken (run digest evs)"
proof (induction evs rule: rev_induct)
  case Nil
  then show ?case by (simp add: run_def data_def)
next
  case (snoc e evs)
  then show ?case unfolding run_snoc by (rule step_tokens)
qed

lemma loadImage_voids_pending:
  assumes "myToken a \<le> loadToken this"
  shows "settle a out (loadImage digest p this) = loadImage digest p this"
  using assms by (intro settle_stale) simp

lemma sliceCount_of_Num:
  assumes "parseInt (comicId p) = Num n"
  shows "sliceCount_of digest p =
     (if n < normalized_epoch (scrambleId p) then Num 0
      else if n < 268850 then Num 10
      else js_add (js_mul (js_rem
             (charCodeAt (digest (digest_input n (page p)))
                (int (length (digest (digest_input n (page p)))) - 1))
             (Num (if 421926 < n then 8 else 10))) (Num 2)) (Num 2))"
  unfolding sliceCount_of_eq digest_input_def
  using assms
  by (simp add: getSegmentationNum_Num [where n = n] parseInt_Number normalized_epoch_Number
      del: Number_toString.simps)

lemma sliceCount_page_jpg: "sliceCount_of stub_digest_a page_jpg = Num 4"
  using sliceCount_of_Num [of page_jpg 500000 stub_digest_a]
  by (simp add: page_jpg_def parse_500000 normalized_epoch_default key_formula stub_digest_a_last)

lemma gif_test_page_jpg: "\<not> gif_test (page page_jpg)"
  by (simp add: page_jpg_def)

text \<open>
  C10. When the identifier parses to \<open>n \<ge> 268850\<close>, at most \<open>MAX_SAFE_INTEGER\<close> and at
  or above the normalized epoch, the slice count that \<open>loadImage\<close> computes is, for every digest function, the rule's
  formula applied to the digest of \<open>digest_input n (page p)\<close>: the decimal string of
  \<open>n\<close> followed by the part of the file name before its first dot. The digest is read
  at that string (changing the digest there alone changes the slice count), and for a
  file name \<open>pre.rest\<close> with no dot in \<open>pre\<close> the hashed string ends with \<open>pre\<close>,
  whatever dots \<open>rest\<close> contains.
\<close>

theorem loadImage_digest_input:
  assumes "parseInt (comicId p) = Num n" "normalized_epoch (scrambleId p) \<le> n" "268850 \<le> n"
    and "n \<le> MAX_SAFE_INTEGER"
  shows "sliceCount_of digest p =
      js_add (js_mul (js_rem
             (charCodeAt (digest (digest_input n (page p)))
                (int (length (digest (digest_input n (page p)))) - 1))
             (Num (if 421926 < n then 8 else 10))) (Num 2)) (Num 2) \<and>
    sliceCount_of (\<lambda>s. if s = digest_input n (page p) then ''1'' else ''0'') p \<noteq>
      sliceCount_of (\<lambda>s. ''0'') p \<and>
    (\<forall>pre rest. page p = pre @ CHR ''.'' # rest \<and> CHR ''.'' \<notin> set pre \<longrightarrow>
       digest_input n (page p) = Number_toString (Num n) @ pre)"
proof (intro conjI allI impI)
  show "sliceCount_of digest p =
      js_add (js_mul (js_rem
             (charCodeAt (digest (digest_input n (page p)))
                (int (length (digest (digest_input n (page p)))) - 1))
             (Num (if 421926 < n then 8 else 10))) (Num 2)) (Num 2)"
    using assms by (simp add: sliceCount_of_Num)
next
  show "sliceCount_of (\<lambda>s. if s = digest_input n (page p) then ''1'' else ''0'') p \<noteq>
      sliceCount_of (\<lambda>s. ''0'') p"
    using assms by (simp add: sliceCount_of_Num charCodeAt_def int_rem_def)
next
  fix pre rest
  assume "page p = pre @ CHR ''.'' # rest \<and> CHR ''.'' \<notin> set pre"
  then have "takeWhile (\<lambda>c. c \<noteq> CHR ''.'') (page p) = pre"
    by (auto simp: takeWhile_tail)
  then show "digest_input n (page p) = Number_toString (Num n) @ pre"
    by (simp add: digest_input_def)
qed

text \<open>The page \<open>foo.bar.jpg\<close> of the album \<open>500000\<close>: the hashed string is \<open>500000foo\<close>.\<close>

theorem loadImage_digest_input_witness:
  "parseInt (comicId page_dots) = Num 500000 \<and> normalized_epoch (scrambleId page_dots) \<le> 500000 \<and>
   500000 \<le> MAX_SAFE_INTEGER \<and>
   page page_dots = ''foo'' @ CHR ''.'' # ''bar.jpg'' \<and> CHR ''.'' \<notin> set ''foo'' \<and>
   digest_input 500000 (page page_dots) = ''500000foo'' \<and>
   sliceCount_of stub_digest_a page_dots =
     js_add (js_mul (js_rem
             (charCodeAt (stub_digest_a ''500000foo'') (int (length (stub_digest_a ''500000foo'')) - 1))
             (Num 8)) (Num 2)) (Num 2) \<and>
   sliceCount_of (\<lambda>s. if s = ''500000foo'' then ''1'' else ''0'') page_dots \<noteq>
      sliceCount_of (\<lambda>s. ''0'') page_dots"
proof -
  have p: "parseInt (comicId page_dots) = Num 500000" by (simp add: page_dots_def parse_500000)
  have e: "normalized_epoch (scrambleId page_dots) \<le> 500000"
    by (simp add: page_dots_def normalized_epoch_default)
  have n: "(268850::int) \<le> 500000" by simp
  have s: "page page_dots = ''foo'' @ CHR ''.'' # ''bar.jpg'' \<and> CHR ''.'' \<notin> set ''foo''"
    by (simp add: page_dots_def)
  have d: "Number_toString (Num 500000) = ''500000''"
    by (simp add: dec_nat.simps digit_char_def)
  have m: "500000 \<le> MAX_SAFE_INTEGER" by (simp add: MAX_SAFE_INTEGER_def)
  note t = loadImage_digest_input [OF p e n m]
  have i: "digest_input 500000 (page page_dots) = ''500000foo''"
    using t [of stub_digest_a, THEN conjunct2, THEN conjunct2, rule_format, of "''foo''" "''bar.jpg''"] s d
    by simp
  show ?thesis
    using t [of stub_digest_a] p e m s i by simp
qed

lemma gif_test_page_gif: "gif_test (page page_gif)"
  by (simp add: page_gif_def)

text \<open>
  C9. Every call of \<open>loadImage\<close> leaves \<open>loadToken\<close> one higher than it found it,
  whichever branch it takes. A call that short-circuits (slice count at most 1, or a GIF)
  registers no image and ends with \<open>loading\<close> false; any other call registers exactly one
  image, with the new token. After the call, of either kind, the handlers of every
  attempt whose token is at most the old \<open>loadToken\<close> do nothing; the attempts pending in
  any state the instance can reach are such attempts.
\<close>

theorem loadImage_token_increment:
  fixes this :: "'p descrambled_image"
  shows "loadToken (loadImage digest p this) = loadToken this + 1 \<and>
   (js_le (sliceCount_of digest p) (Num 1) \<or> gif_test (page p) \<longrightarrow>
      pending (loadImage digest p this) = pending this \<and> \<not> loading (loadImage digest p this)) \<and>
   (\<not> (js_le (sliceCount_of digest p) (Num 1) \<or> gif_test (page p)) \<longrightarrow>
      pending (loadImage digest p this) = pending this @
        [\<lparr>myToken = loadToken this + 1, slices = sliceCount_of digest p, img_src = src p\<rparr>]) \<and>
   (\<forall>a out. myToken a \<le> loadToken this \<longrightarrow>
      settle a out (loadImage digest p this) = loadImage digest p this) \<and>
   (\<forall>(evs :: 'p event list) a out. a \<in> set (pending (run digest evs)) \<longrightarrow>
      settle a out (loadImage digest p (run digest evs)) = loadImage digest p (run digest evs))"
proof -
  have short: "pending (loadImage digest p this) = pending this \<and> \<not> loading (loadImage digest p this)"
    if "js_le (sliceCount_of digest p) (Num 1) \<or> gif_test (page p)"
    using that by (simp add: loadImage_def Let_def)
  have long: "pending (loadImage digest p this) = pending this @
        [\<lparr>myToken = loadToken this + 1, slices = sliceCount_of digest p, img_src = src p\<rparr>]"
    if "\<not> (js_le (sliceCount_of digest p) (Num 1) \<or> gif_test (page p))"
    using that by (simp add: loadImage_pending)
  have void: "settle a out (loadImage digest p this) = loadImage digest p this"
    if "myToken a \<le> loadToken this" for a and out :: "'p outcome"
    using that by (rule loadImage_voids_pending)
  have reach: "settle a out (loadImage digest p (run digest evs)) = loadImage digest p (run digest evs)"
    if "a \<in> set (pending (run digest evs))" for a and out :: "'p outcome" and evs :: "'p event list"
  proof -
    have "myToken a \<le> loadToken (run digest evs)" using that run_tokens by blast
    then show ?thesis by (rule loadImage_voids_pending)
  qed
  show ?thesis using short long void reach by simp
qed

lemma run_example:
  "pending (run stub_digest_a [Mounted, Intersect True page_jpg]) =
     [\<lparr>myToken = 1, slices = Num 4, img_src = src page_jpg\<rparr>]"
  "loadToken (run stub_digest_a [Mounted, Intersect True page_jpg]) = 1"
  by (simp_all add: run_def data_def mounted_def observer_callback_def loadImage_pending
      sliceCount_page_jpg gif_test_page_jpg)

text \<open>A JPEG is pending with token 1 when a GIF is loaded: the token becomes 2, no image is
  registered and the pending one is void.\<close>

theorem loadImage_token_increment_witness:
  "gif_test (page page_gif) \<and>
   \<lparr>myToken = 1, slices = Num 4, img_src = src page_jpg\<rparr>
     \<in> set (pending (run stub_digest_a [Mounted, Intersect True page_jpg] :: unit descrambled_image)) \<and>
   loadToken (loadImage stub_digest_a page_gif
     (run stub_digest_a [Mounted, Intersect True page_jpg] :: unit descrambled_image)) = 2 \<and>
   pending (loadImage stub_digest_a page_gif
     (run stub_digest_a [Mounted, Intersect True page_jpg] :: unit descrambled_image)) =
   pending (run stub_digest_a [Mounted, Intersect True page_jpg] :: unit descrambled_image) \<and>
   settle \<lparr>myToken = 1, slices = Num 4, img_src = src page_jpg\<rparr> Failed
     (loadImage stub_digest_a page_gif
       (run stub_digest_a [Mounted, Intersect True page_jpg] :: unit descrambled_image)) =
   loadImage stub_digest_a page_gif (run stub_digest_a [Mounted, Intersect True page_jpg]) \<and>
   \<not> (js_le (sliceCount_of stub_digest_a page_jpg) (Num 1) \<or> gif_test (page page_jpg)) \<and>
   pending (loadImage stub_digest_a page_jpg (data :: unit descrambled_image)) =
     [\<lparr>myToken = 1, slices = Num 4, img_src = src page_jpg\<rparr>]"
proof -
  let ?s = "run stub_digest_a [Mounted, Intersect True page_jpg] :: unit descrambled_image"
  let ?a = "\<lparr>myToken = 1, slices = Num 4, img_src = src page_jpg\<rparr>"
  note t = loadImage_token_increment [of stub_digest_a page_gif ?s]
  note u = loadImage_token_increment [of stub_digest_a page_jpg "data :: unit descrambled_image"]
  have g: "gif_test (page page_gif)" by (rule gif_test_page_gif)
  have m: "?a \<in> set (pending ?s)" by (simp add: run_example)
  have n: "\<not> (js_le (sliceCount_of stub_digest_a page_jpg) (Num 1) \<or> gif_test (page page_jpg))"
    by (simp add: sliceCount_page_jpg gif_test_page_jpg)
  have 1: "loadToken (loadImage stub_digest_a page_gif ?s) = 2"
    using t [THEN conjunct1] by (simp add: run_example)
  have 2: "pending (loadImage stub_digest_a page_gif ?s) = pending ?s"
    using t [THEN conjunct2, THEN conjunct1] g by simp
  have 3: "settle ?a Failed (loadImage stub_digest_a page_gif ?s) = loadImage stub_digest_a page_gif ?s"
    using t [THEN conjunct2, THEN conjunct2, THEN conjunct2, THEN conjunct2, rule_format,
        of ?a "[Mounted, Intersect True page_jpg]" Failed] m
    by simp
  have 4: "pending (loadImage stub_digest_a page_jpg (data :: unit descrambled_image)) = [?a]"
    using u [THEN conjunct2, THEN conjunct2, THEN conjunct1] n
    by (simp add: data_def sliceCount_page_jpg)
  from g m n 1 2 3 4 show ?thesis by simp
qed

lemma sliceCount_page_dots: "sliceCount_of stub_digest_a page_dots = Num 4"
  using sliceCount_of_Num [of page_dots 500000 stub_digest_a]
  by (simp add: page_dots_def parse_500000 normalized_epoch_default key_formula stub_digest_a_last)

lemma loadImage_canvas [simp]: "canvas (loadImage digest p this) = canvas this"
  by (simp add: loadImage_def Let_def)

lemma gif_test_page_dots: "\<not> gif_test (page page_dots)"
  by (simp add: page_dots_def)

text \<open>
  C2. A completion, success or failure, whose captured token differs from the current
  \<open>loadToken\<close> returns the instance as it was: no field changes and the canvas is not
  drawn. After two calls of \<open>loadImage\<close>, the completion of the attempt that the first
  call registered changes nothing, whether it comes before or after the completion of the
  second attempt and whatever the second call did; the second attempt holds the current
  token, and in both orders the instance ends as the second completion alone leaves it.
\<close>

theorem stale_completion_void:
  fixes this :: "'p descrambled_image"
  shows "(\<forall>a out. myToken a \<noteq> loadToken this \<longrightarrow> settle a out this = this) \<and>
   (\<forall>a1 out1. pending (loadImage digest p1 this) = pending this @ [a1] \<longrightarrow>
      settle a1 out1 (loadImage digest p2 (loadImage digest p1 this)) =
      loadImage digest p2 (loadImage digest p1 this)) \<and>
   (\<forall>a1 a2 out1 out2.
      pending (loadImage digest p1 this) = pending this @ [a1] \<and>
      pending (loadImage digest p2 (loadImage digest p1 this)) =
        pending (loadImage digest p1 this) @ [a2] \<longrightarrow>
      myToken a2 = loadToken (loadImage digest p2 (loadImage digest p1 this)) \<and>
      settle a1 out1 (settle a2 out2 (loadImage digest p2 (loadImage digest p1 this))) =
        settle a2 out2 (loadImage digest p2 (loadImage digest p1 this)) \<and>
      settle a2 out2 (settle a1 out1 (loadImage digest p2 (loadImage digest p1 this))) =
        settle a2 out2 (loadImage digest p2 (loadImage digest p1 this)))"
proof -
  let ?s1 = "loadImage digest p1 this"
  let ?s2 = "loadImage digest p2 ?s1"
  have stale: "settle a out this = this" if "myToken a \<noteq> loadToken this"
    for a and out :: "'p outcome"
    using that by (rule settle_stale)
  have tok1: "myToken a1 = loadToken this + 1" if "pending ?s1 = pending this @ [a1]" for a1
    using that by (auto simp: loadImage_pending split: if_splits)
  have tok2: "myToken a2 = loadToken this + 2" if "pending ?s2 = pending ?s1 @ [a2]" for a2
    using that by (auto simp: loadImage_pending [of digest p2] split: if_splits)
  have first: "settle a1 out1 ?s2 = ?s2" if "pending ?s1 = pending this @ [a1]"
    for a1 and out1 :: "'p outcome"
    using tok1 [OF that] by (intro settle_stale) simp
  have both: "myToken a2 = loadToken ?s2 \<and>
      settle a1 out1 (settle a2 out2 ?s2) = settle a2 out2 ?s2 \<and>
      settle a2 out2 (settle a1 out1 ?s2) = settle a2 out2 ?s2"
    if "pending ?s1 = pending this @ [a1] \<and> pending ?s2 = pending ?s1 @ [a2]"
    for a1 a2 and out1 out2 :: "'p outcome"
  proof -
    have t1: "myToken a1 = loadToken this + 1" using that tok1 by blast
    have t2: "myToken a2 = loadToken this + 2" using that tok2 by blast
    have "settle a1 out1 (settle a2 out2 ?s2) = settle a2 out2 ?s2"
      using t1 by (intro settle_stale) simp
    moreover have "settle a1 out1 ?s2 = ?s2" using t1 by (intro settle_stale) simp
    ultimately show ?thesis using t2 by simp
  qed
  show ?thesis using stale first both by blast
qed


text \<open>Two pages loaded in turn on a fresh instance; the second decodes first, then the first.\<close>

theorem stale_completion_void_witness:
  "pending (loadImage stub_digest_a page_jpg (data :: unit descrambled_image)) =
     pending (data :: unit descrambled_image) @ [\<lparr>myToken = 1, slices = Num 4, img_src = src page_jpg\<rparr>] \<and>
   pending (loadImage stub_digest_a page_dots (loadImage stub_digest_a page_jpg (data :: unit descrambled_image))) =
     pending (loadImage stub_digest_a page_jpg (data :: unit descrambled_image)) @
       [\<lparr>myToken = 2, slices = Num 4, img_src = src page_dots\<rparr>] \<and>
   loadToken (loadImage stub_digest_a page_dots (loadImage stub_digest_a page_jpg (data :: unit descrambled_image))) = 2 \<and>
   settle \<lparr>myToken = 1, slices = Num 4, img_src = src page_jpg\<rparr>
       (Decoded \<lparr>naturalWidth = 2, naturalHeight = 8, pixel = (\<lambda>x y. ())\<rparr>)
     (settle \<lparr>myToken = 2, slices = Num 4, img_src = src page_dots\<rparr>
         (Decoded \<lparr>naturalWidth = 4, naturalHeight = 16, pixel = (\<lambda>x y. ())\<rparr>)
       (loadImage stub_digest_a page_dots (loadImage stub_digest_a page_jpg data))) =
     settle \<lparr>myToken = 2, slices = Num 4, img_src = src page_dots\<rparr>
         (Decoded \<lparr>naturalWidth = 4, naturalHeight = 16, pixel = (\<lambda>x y. ())\<rparr>)
       (loadImage stub_digest_a page_dots (loadImage stub_digest_a page_jpg data)) \<and>
   (\<exists>cv. canvas (settle \<lparr>myToken = 2, slices = Num 4, img_src = src page_dots\<rparr>
         (Decoded \<lparr>naturalWidth = 4, naturalHeight = 16, pixel = (\<lambda>x y. ())\<rparr>)
       (loadImage stub_digest_a page_dots (loadImage stub_digest_a page_jpg (data :: unit descrambled_image))))
       = Some cv \<and> width cv = 4 \<and> height cv = 16)"
proof -
  let ?d = "data :: unit descrambled_image"
  let ?a1 = "\<lparr>myToken = 1, slices = Num 4, img_src = src page_jpg\<rparr>"
  let ?a2 = "\<lparr>myToken = 2, slices = Num 4, img_src = src page_dots\<rparr>"
  let ?i1 = "\<lparr>naturalWidth = 2, naturalHeight = 8, pixel = (\<lambda>x y. ())\<rparr> :: unit html_image"
  let ?i2 = "\<lparr>naturalWidth = 4, naturalHeight = 16, pixel = (\<lambda>x y. ())\<rparr> :: unit html_image"
  let ?s1 = "loadImage stub_digest_a page_jpg ?d"
  let ?s2 = "loadImage stub_digest_a page_dots ?s1"
  have p1: "pending ?s1 = pending ?d @ [?a1]"
    by (simp add: loadImage_pending sliceCount_page_jpg gif_test_page_jpg data_def)
  have p2: "pending ?s2 = pending ?s1 @ [?a2]"
    by (simp add: loadImage_pending [of _ page_dots] sliceCount_page_dots gif_test_page_dots data_def)
  note t = stale_completion_void [of ?d stub_digest_a page_jpg page_dots,
      THEN conjunct2, THEN conjunct2, rule_format, of ?a1 ?a2 "Decoded ?i1" "Decoded ?i2"]
  have r: "myToken ?a2 = loadToken ?s2 \<and>
      settle ?a1 (Decoded ?i1) (settle ?a2 (Decoded ?i2) ?s2) = settle ?a2 (Decoded ?i2) ?s2"
    using t p1 p2 by blast
  have c: "\<exists>cv. canvas (settle ?a2 (Decoded ?i2) ?s2) = Some cv \<and> width cv = 4 \<and> height cv = 16"
  proof -
    have k: "canvas ?s2 = Some initial_canvas" by (simp add: loadImage_canvas data_def)
    have "loadToken ?s2 = 2" by (simp add: data_def)
    then have "settle ?a2 (Decoded ?i2) ?s2 = (cutImage ?i2 (Num 4) ?s2)\<lparr>loading := False\<rparr>"
      by (simp add: settle_def onload_def)
    moreover obtain cv where "canvas (cutImage ?i2 (Num 4) ?s2) = Some cv"
        "width cv = 4" "height cv = 16"
      using cutImage_dims [OF k, of 4 ?i2] by auto
    ultimately show ?thesis by simp
  qed
  have l: "loadToken ?s2 = 2" by (simp add: data_def)
  from p1 p2 l r c show ?thesis by simp
qed

lemma sliceCount_page_gif: "sliceCount_of stub_digest_a page_gif = Num 4"
  using sliceCount_of_Num [of page_gif 500000 stub_digest_a]
  by (simp add: page_gif_def parse_500000 normalized_epoch_default key_formula stub_digest_a_last)

text \<open>
  C8. For a page whose file name ends in \<open>.gif\<close>, in either case of each letter,
  \<open>loadImage\<close> only raises the token and sets \<open>loading\<close> and \<open>needDescramble\<close> to
  false, whatever the slice count: it registers no image, so no handler of this attempt
  exists that could call \<open>cutImage\<close>, and it leaves the canvas as it was. From both
  places that call it (the observer's callback, the watcher of \<open>src\<close> on a visible
  instance) the template then shows the \<open>img\<close> element with the source as it is. The
  handlers of the attempts still pending do nothing afterwards.
\<close>

theorem gif_never_reconstructed:
  fixes this :: "'p descrambled_image"
  assumes "page p = pre @ [CHR ''.'', g, i, f]"
    and "g = CHR ''g'' \<or> g = CHR ''G''" "i = CHR ''i'' \<or> i = CHR ''I''"
    and "f = CHR ''f'' \<or> f = CHR ''F''"
  shows "loadImage digest p this =
      this\<lparr>loadToken := loadToken this + 1, loading := False, needDescramble := False\<rparr> \<and>
    img_shown (observer_callback digest True p this) \<and>
    (isVisible this \<longrightarrow> img_shown (watch_src digest p this)) \<and>
    (\<forall>(evs :: 'p event list) a out. a \<in> set (pending (run digest evs)) \<longrightarrow>
       settle a out (loadImage digest p (run digest evs)) = loadImage digest p (run digest evs))"
proof -
  have g: "gif_test (page p)" using assms by (simp add: gif_test_suffix)
  have short: "loadImage digest p s =
      s\<lparr>loadToken := loadToken s + 1, loading := False, needDescramble := False\<rparr>"
    for s :: "'p descrambled_image"
    using g by (simp add: loadImage_def Let_def)
  have cb: "img_shown (observer_callback digest True p this)"
    by (simp add: observer_callback_def short img_shown_def)
  have w: "img_shown (watch_src digest p this)" if "isVisible this"
    using that by (simp add: watch_src_def short img_shown_def)
  have reach: "settle a out (loadImage digest p (run digest evs)) = loadImage digest p (run digest evs)"
    if "a \<in> set (pending (run digest evs))" for a and out :: "'p outcome" and evs :: "'p event list"
  proof -
    have "myToken a \<le> loadToken (run digest evs)" using that run_tokens by blast
    then show ?thesis by (rule loadImage_voids_pending)
  qed
  show ?thesis using short cb w reach by simp
qed

text \<open>The page \<open>00002.GIF\<close>, for which the rule computes 4 slices, loaded while a JPEG is pending.\<close>

theorem gif_never_reconstructed_witness:
  "page page_gif = ''00002'' @ [CHR ''.'', CHR ''G'', CHR ''I'', CHR ''F''] \<and>
   sliceCount_of stub_digest_a page_gif = Num 4 \<and>
   loadImage stub_digest_a page_gif (run stub_digest_a [Mounted, Intersect True page_jpg] :: unit descrambled_image) =
     (run stub_digest_a [Mounted, Intersect True page_jpg])
       \<lparr>loadToken := 2, loading := False, needDescramble := False\<rparr> \<and>
   isVisible (run stub_digest_a [Mounted, Intersect True page_jpg] :: unit descrambled_image) \<and>
   img_shown (watch_src stub_digest_a page_gif
     (run stub_digest_a [Mounted, Intersect True page_jpg] :: unit descrambled_image)) \<and>
   img_shown (observer_callback stub_digest_a True page_gif (mounted (data :: unit descrambled_image))) \<and>
   \<lparr>myToken = 1, slices = Num 4, img_src = src page_jpg\<rparr>
     \<in> set (pending (run stub_digest_a [Mounted, Intersect True page_jpg] :: unit descrambled_image)) \<and>
   settle \<lparr>myToken = 1, slices = Num 4, img_src = src page_jpg\<rparr>
       (Decoded \<lparr>naturalWidth = 2, naturalHeight = 8, pixel = (\<lambda>x y. ())\<rparr>)
     (loadImage stub_digest_a page_gif (run stub_digest_a [Mounted, Intersect True page_jpg])) =
   loadImage stub_digest_a page_gif (run stub_digest_a [Mounted, Intersect True page_jpg])"
proof -
  let ?s = "run stub_digest_a [Mounted, Intersect True page_jpg] :: unit descrambled_image"
  let ?a = "\<lparr>myToken = 1, slices = Num 4, img_src = src page_jpg\<rparr>"
  let ?i = "\<lparr>naturalWidth = 2, naturalHeight = 8, pixel = (\<lambda>x y. ())\<rparr> :: unit html_image"
  have pg: "page page_gif = ''00002'' @ [CHR ''.'', CHR ''G'', CHR ''I'', CHR ''F'']"
    by (simp add: page_gif_def)
  have c: "CHR ''G'' = CHR ''g'' \<or> CHR ''G'' = CHR ''G''" "CHR ''I'' = CHR ''i'' \<or> CHR ''I'' = CHR ''I''"
    "CHR ''F'' = CHR ''f'' \<or> CHR ''F'' = CHR ''F''" by simp_all
  note t = gif_never_reconstructed [OF pg c, of stub_digest_a]
  have v: "isVisible ?s"
    by (simp add: run_def data_def mounted_def observer_callback_def loadImage_def Let_def)
  have m: "?a \<in> set (pending ?s)" by (simp add: run_example)
  have 1: "loadImage stub_digest_a page_gif ?s = ?s\<lparr>loadToken := 2, loading := False, needDescramble := False\<rparr>"
    using t [of ?s, THEN conjunct1] by (simp add: run_example)
  have 2: "img_shown (watch_src stub_digest_a page_gif ?s)"
    using t [of ?s, THEN conjunct2, THEN conjunct2, THEN conjunct1] v by simp
  have 3: "img_shown (observer_callback stub_digest_a True page_gif (mounted (data :: unit descrambled_image)))"
    using t [of "mounted (data :: unit descrambled_image)", THEN conjunct2, THEN conjunct1] by simp
  have 4: "settle ?a (Decoded ?i) (loadImage stub_digest_a page_gif ?s) = loadImage stub_digest_a page_gif ?s"
    using t [of ?s, THEN conjunct2, THEN conjunct2, THEN conjunct2, rule_format,
        of ?a "[Mounted, Intersect True page_jpg]" "Decoded ?i"] m
    by simp
  from pg sliceCount_page_gif 1 v 2 3 m 4 show ?thesis by simp
qed

end
